theory Spec2Isabelle
  imports Complex_Main "HOL-Library.Sublist"
begin

section \<open>AGV telemetry simulator (sim.py)\<close>

text \<open>
  The embedding follows \<^verbatim>\<open>src/sim.py\<close>. Python floats are modelled as
  \<^typ>\<open>real\<close> (exact arithmetic, no rounding, no NaN or infinity), Python ints as
  \<^typ>\<open>int\<close>, exceptions as values of \<open>error\<close>. The module-level generator of
  \<^verbatim>\<open>random\<close> is an explicit state that every drawing function takes and returns.
  A method that raises after it has assigned to attributes returns the exception together
  with the object as the assignments left it.
\<close>

subsection \<open>Exceptions\<close>

datatype error =
    IndexError
  | KeyError
  | ValueError
  | SystemExit
  | ConnectionError
  | HTTPError nat

subsection \<open>The random generator\<close>

text \<open>
  The generator state is the infinite sequence of values that the successive calls of
  \<^verbatim>\<open>random.random()\<close> are going to return; a call takes the head. The library
  promises a value in \<open>[0, 1)\<close>: that is \<open>valid_rng\<close>.
\<close>

type_synonym rng = "nat \<Rightarrow> real"

definition valid_rng :: "rng \<Rightarrow> bool" where
  "valid_rng g = (\<forall>n. 0 \<le> g n \<and> g n < 1)"

definition random_random :: "rng \<Rightarrow> real \<times> rng" where
  "random_random g = (g 0, \<lambda>n. g (Suc n))"

text \<open>\<^verbatim>\<open>random.uniform(a, b)\<close> is \<^verbatim>\<open>a + (b - a) * self.random()\<close>.\<close>

definition uniform :: "real \<Rightarrow> real \<Rightarrow> rng \<Rightarrow> real \<times> rng" where
  "uniform a b g = (case random_random g of (u, g') \<Rightarrow> (a + (b - a) * u, g'))"

text \<open>
  \<^verbatim>\<open>_randbelow(n)\<close> returns an integer \<open>k\<close> with \<open>0 \<le> k < n\<close>. The library builds
  it from random bits; here one draw \<open>u\<close> is scaled to \<open>\<lfloor>u * n\<rfloor>\<close>, which reaches every
  such \<open>k\<close> and nothing else.
\<close>

definition randbelow :: "nat \<Rightarrow> rng \<Rightarrow> nat \<times> rng" where
  "randbelow n g = (case random_random g of (u, g') \<Rightarrow> (nat \<lfloor>u * real n\<rfloor>, g'))"

text \<open>\<^verbatim>\<open>random.randint(a, b)\<close>: \<^verbatim>\<open>randrange(a, b + 1)\<close>, ValueError on an empty range.\<close>

definition randint :: "int \<Rightarrow> int \<Rightarrow> rng \<Rightarrow> error + (int \<times> rng)" where
  "randint a b g =
     (if b + 1 - a \<le> 0 then Inl ValueError
      else (case randbelow (nat (b + 1 - a)) g of (k, g') \<Rightarrow> Inr (a + int k, g')))"

text \<open>\<^verbatim>\<open>random.choice(seq)\<close>: IndexError on an empty sequence, else \<^verbatim>\<open>seq[_randbelow(len(seq))]\<close>.\<close>

definition choice :: "'a list \<Rightarrow> rng \<Rightarrow> error + ('a \<times> rng)" where
  "choice seq g =
     (if seq = [] then Inl IndexError
      else (case randbelow (length seq) g of (i, g') \<Rightarrow>
              if i < length seq then Inr (seq ! i, g') else Inl IndexError))"

subsection \<open>Formatting integers\<close>

definition digit_char :: "nat \<Rightarrow> char" where
  "digit_char d = ''0123456789'' ! (d mod 10)"

fun str_nat :: "nat \<Rightarrow> string" where
  "str_nat n = (if n < 10 then [digit_char n] else str_nat (n div 10) @ [digit_char (n mod 10)])"

declare str_nat.simps [simp del]

text \<open>\<^verbatim>\<open>f"{i}"\<close> for an int.\<close>

definition str_int :: "int \<Rightarrow> string" where
  "str_int i = (if i < 0 then CHR ''-'' # str_nat (nat (- i)) else str_nat (nat i))"

text \<open>\<^verbatim>\<open>f"{i:02d}"\<close> for a non-negative int: zero-padded to width 2.\<close>

definition fmt_02d :: "nat \<Rightarrow> string" where
  "fmt_02d i = (let s = str_nat i in replicate (2 - length s) (CHR ''0'') @ s)"

subsection \<open>Module constants\<close>

definition AGV_IDS :: "string list" where
  "AGV_IDS = map (\<lambda>i. ''AGV-'' @ fmt_02d i) [1..<11]"

definition YARD_BLOCKS :: "string list" where
  "YARD_BLOCKS = [''YB10'', ''YB11'', ''YB12'']"

definition LANES_BY_BLOCK :: "string \<rightharpoonup> string list" where
  "LANES_BY_BLOCK = map_of
     [(''YB10'', [''L41'', ''L42'']),
      (''YB11'', [''L43'', ''L44'']),
      (''YB12'', [''L45'', ''L46''])]"

text \<open>\<^verbatim>\<open>d[k]\<close> on a dict: KeyError when the key is absent.\<close>

definition getitem :: "('k \<rightharpoonup> 'v) \<Rightarrow> 'k \<Rightarrow> error + 'v" where
  "getitem d k = (case d k of None \<Rightarrow> Inl KeyError | Some v \<Rightarrow> Inr v)"

subsection \<open>The vehicle: class AGVState\<close>

record AGVState =
  agv_id :: string
  yard_block :: string
  lane_id :: string
  position_m :: real
  speed_kph :: real
  soc_pct :: real
  job_id :: string
  load_status :: string

text \<open>\<^verbatim>\<open>_new_job_id\<close> (line 35): \<^verbatim>\<open>f"JOB-{random.randint(100000, 999999)}"\<close>.\<close>

definition new_job_id :: "rng \<Rightarrow> error + (string \<times> rng)" where
  "new_job_id g =
     (case randint 100000 999999 g of
        Inl e \<Rightarrow> Inl e
      | Inr (n, g') \<Rightarrow> Inr (''JOB-'' @ str_int n, g'))"

text \<open>\<^verbatim>\<open>__init__\<close> (lines 25-33); the draws are made in the order of the assignments.\<close>

definition AGVState_init :: "string \<Rightarrow> rng \<Rightarrow> error + (AGVState \<times> rng)" where
  "AGVState_init aid g0 =
     (case choice YARD_BLOCKS g0 of Inl e \<Rightarrow> Inl e | Inr (yb, g1) \<Rightarrow>
     (case getitem LANES_BY_BLOCK yb of Inl e \<Rightarrow> Inl e | Inr lanes \<Rightarrow>
     (case choice lanes g1 of Inl e \<Rightarrow> Inl e | Inr (lane, g2) \<Rightarrow>
     (case uniform 0 1000 g2 of (pos, g3) \<Rightarrow>
     (case uniform 8 14 g3 of (spd, g4) \<Rightarrow>
     (case uniform 60 100 g4 of (soc, g5) \<Rightarrow>
     (case new_job_id g5 of Inl e \<Rightarrow> Inl e | Inr (job, g6) \<Rightarrow>
     (case choice [''EMPTY'', ''LOADED''] g6 of Inl e \<Rightarrow> Inl e | Inr (ls, g7) \<Rightarrow>
        Inr (\<lparr>agv_id = aid, yard_block = yb, lane_id = lane, position_m = pos,
              speed_kph = spd, soc_pct = soc, job_id = job, load_status = ls\<rparr>, g7)))))))))"

text \<open>
  \<^verbatim>\<open>tick\<close> (lines 38-64) is a sequence of four blocks of statements. Lines 40-41:
  drift the speed and clamp it.
\<close>

definition tick_speed :: "AGVState \<Rightarrow> rng \<Rightarrow> AGVState \<times> rng" where
  "tick_speed s g =
     (case uniform (- 1) 1 g of (d, g') \<Rightarrow>
        (s\<lparr>speed_kph := max 4 (min (speed_kph s + d) 18)\<rparr>, g'))"

text \<open>
  Lines 44-45: move along the lane. The product and the sum are exact here, where the
  program rounds each operation to a double: the last bits of the new position, and
  whether a displacement smaller than the spacing of the doubles around the position is
  absorbed, are not represented.
\<close>

definition tick_move :: "real \<Rightarrow> AGVState \<Rightarrow> AGVState" where
  "tick_move dt_sec s =
     (let m_per_sec = (speed_kph s * 1000) / 3600
      in s\<lparr>position_m := position_m s + m_per_sec * dt_sec\<rparr>)"

text \<open>
  Lines 48-57: at the end of the lane, finish the job and pick a new one. Each assignment
  takes effect before the next call, so an exception carries the vehicle as it is then.
\<close>

definition tick_lane_end ::
  "AGVState \<Rightarrow> rng \<Rightarrow> (error \<times> AGVState) + (AGVState \<times> rng)" where
  "tick_lane_end s g0 =
     (if position_m s \<ge> 1000 then
        (let s0 = s\<lparr>position_m := 0\<rparr> in
        (case new_job_id g0 of Inl e \<Rightarrow> Inl (e, s0) | Inr (job, g1) \<Rightarrow>
        (let s1 = s0\<lparr>job_id := job\<rparr> in
        (case random_random g1 of (flip, g2) \<Rightarrow>
        (let s2 = (if flip < 0.5
                   then s1\<lparr>load_status :=
                          (if load_status s1 = ''EMPTY'' then ''LOADED'' else ''EMPTY'')\<rparr>
                   else s1) in
        (case random_random g2 of (move, g3) \<Rightarrow>
           if move < 0.3 then
             (case choice YARD_BLOCKS g3 of Inl e \<Rightarrow> Inl (e, s2) | Inr (yb, g4) \<Rightarrow>
             (let s3 = s2\<lparr>yard_block := yb\<rparr> in
             (case getitem LANES_BY_BLOCK (yard_block s3) of
                Inl e \<Rightarrow> Inl (e, s3)
              | Inr lanes \<Rightarrow>
             (case choice lanes g4 of Inl e \<Rightarrow> Inl (e, s3) | Inr (lane, g5) \<Rightarrow>
                Inr (s3\<lparr>lane_id := lane\<rparr>, g5)))))
           else Inr (s2, g3)))))))
      else Inr (s, g0))"

text \<open>
  Lines 60-64: the battery drains; below 30 it sometimes jumps back up. The drain is
  exact here as well, so the absorption of a small drain by a charge of large magnitude
  is not represented.
\<close>

definition tick_battery :: "real \<Rightarrow> AGVState \<Rightarrow> rng \<Rightarrow> AGVState \<times> rng" where
  "tick_battery dt_sec s g0 =
     (case uniform 0.01 0.05 g0 of (drain, g1) \<Rightarrow>
      let s1 = s\<lparr>soc_pct := soc_pct s - drain * dt_sec\<rparr> in
      if soc_pct s1 < 30 then
        (case random_random g1 of (r, g2) \<Rightarrow>
         if r < 0.01 then
           (case uniform 70 100 g2 of (c, g3) \<Rightarrow> (s1\<lparr>soc_pct := c\<rparr>, g3))
         else (s1, g2))
      else (s1, g1))"

text \<open>
  The recharge fires in the battery block: after the drain of line 60 the test of line 61
  holds, so that line 63 is reached, and the draw of line 63 is below 0.01.
\<close>

definition recharge_fires :: "real \<Rightarrow> AGVState \<Rightarrow> rng \<Rightarrow> bool" where
  "recharge_fires dt_sec s g0 =
     (case uniform 0.01 0.05 g0 of (drain, g1) \<Rightarrow>
        soc_pct s - drain * dt_sec < 30 \<and> fst (random_random g1) < 0.01)"

text \<open>Lines 40-57: the tick up to the battery block.\<close>

definition tick_motion ::
  "real \<Rightarrow> AGVState \<Rightarrow> rng \<Rightarrow> (error \<times> AGVState) + (AGVState \<times> rng)" where
  "tick_motion dt_sec s g0 =
     (case tick_speed s g0 of (s1, g1) \<Rightarrow> tick_lane_end (tick_move dt_sec s1) g1)"

definition tick ::
  "real \<Rightarrow> AGVState \<Rightarrow> rng \<Rightarrow> (error \<times> AGVState) + (AGVState \<times> rng)" where
  "tick dt_sec s g0 =
     (case tick_motion dt_sec s g0 of
        Inl (e, s') \<Rightarrow> Inl (e, s')
      | Inr (s2, g2) \<Rightarrow> Inr (tick_battery dt_sec s2 g2))"

text \<open>A vehicle ticked once for every element of a list of time steps, in order.\<close>

fun run_ticks ::
  "real list \<Rightarrow> AGVState \<Rightarrow> rng \<Rightarrow> (error \<times> AGVState) + (AGVState \<times> rng)" where
  "run_ticks [] s g = Inr (s, g)"
| "run_ticks (dt # dts) s g =
     (case tick dt s g of Inl (e, s') \<Rightarrow> Inl (e, s') | Inr (s', g') \<Rightarrow> run_ticks dts s' g')"

subsection \<open>Snapshots: to_doc\<close>

text \<open>
  \<^verbatim>\<open>round(x, ndigits)\<close> on a float rounds to the nearest multiple of \<open>10 ^ (- ndigits)\<close>,
  a tie going to the even neighbour.
\<close>

definition round_half_even :: "real \<Rightarrow> int" where
  "round_half_even x =
     (let f = \<lfloor>x\<rfloor>; r = x - of_int f
      in if r < 1 / 2 then f else if 1 / 2 < r then f + 1 else if even f then f else f + 1)"

definition py_round :: "real \<Rightarrow> nat \<Rightarrow> real" where
  "py_round x ndigits = of_int (round_half_even (x * 10 ^ ndigits)) / 10 ^ ndigits"

record doc =
  d_timestamp :: string
  d_agv_id :: string
  d_yard_block :: string
  d_lane_id :: string
  d_position_m :: real
  d_speed_kph :: real
  d_soc_pct :: real
  d_job_id :: string
  d_load_status :: string
  d_mode :: string

text \<open>
  \<^verbatim>\<open>to_doc\<close> (lines 66-78). The first argument is what
  \<^verbatim>\<open>datetime.now(timezone.utc).isoformat()\<close> returns at the call.
\<close>

definition to_doc :: "string \<Rightarrow> AGVState \<Rightarrow> doc" where
  "to_doc now s =
     \<lparr>d_timestamp = now,
      d_agv_id = agv_id s,
      d_yard_block = yard_block s,
      d_lane_id = lane_id s,
      d_position_m = py_round (position_m s) 2,
      d_speed_kph = py_round (speed_kph s) 2,
      d_soc_pct = py_round (soc_pct s) 1,
      d_job_id = job_id s,
      d_load_status = load_status s,
      d_mode = ''BAU''\<rparr>"

subsection \<open>Publishing: bulk_index\<close>

text \<open>The module globals read from the environment (lines 9-13).\<close>

record config =
  ES_URL :: "string option"
  ES_API_KEY :: "string option"
  INDEX_NAME :: string
  TICK_INTERVAL_SEC :: real
  DURATION_SEC :: int

text \<open>\<^verbatim>\<open>not v\<close> for an optional string: true for \<^verbatim>\<open>None\<close> and for the empty string.\<close>

definition falsy :: "string option \<Rightarrow> bool" where
  "falsy v = (case v of None \<Rightarrow> True | Some x \<Rightarrow> x = [])"

text \<open>\<^verbatim>\<open>f"{v}"\<close> for an optional string.\<close>

definition fmt_opt :: "string option \<Rightarrow> string" where
  "fmt_opt v = (case v of None \<Rightarrow> ''None'' | Some x \<Rightarrow> x)"

text \<open>
  The lines of the request body before serialisation: \<^verbatim>\<open>json.dumps({"index": {}})\<close>
  and \<^verbatim>\<open>json.dumps(doc)\<close>.
\<close>

datatype ndjson_line = Action_index | Source doc

record request =
  req_url :: string
  req_data :: "ndjson_line list"
  req_headers :: "(string \<times> string) list"
  req_timeout :: nat

text \<open>
  What \<^verbatim>\<open>requests.post\<close> does with a request: it raises (no connection, timeout) or it
  returns a response with a status code. \<^verbatim>\<open>raise_for_status\<close> raises for the codes
  400 to 599.
\<close>

datatype post_result = Post_raises | Response nat

definition raise_for_status :: "nat \<Rightarrow> error + unit" where
  "raise_for_status status_code =
     (if 400 \<le> status_code \<and> status_code < 600 then Inl (HTTPError status_code) else Inr ())"

text \<open>\<^verbatim>\<open>bulk_index\<close> (lines 81-94); \<open>post\<close> is the remote end at the time of the call.\<close>

definition bulk_index ::
  "config \<Rightarrow> (request \<Rightarrow> post_result) \<Rightarrow> string \<Rightarrow> doc list \<Rightarrow> error + unit" where
  "bulk_index cfg post index docs =
     (if docs = [] then Inr ()
      else
        (let lines = concat (map (\<lambda>d. [Action_index, Source d]) docs);
             headers = [(''Content-Type'', ''application/x-ndjson''),
                        (''Authorization'', ''ApiKey '' @ fmt_opt (ES_API_KEY cfg))];
             req = \<lparr>req_url = fmt_opt (ES_URL cfg) @ ''/'' @ index @ ''/_bulk'',
                    req_data = lines, req_headers = headers, req_timeout = 10\<rparr>
         in (case post req of
               Post_raises \<Rightarrow> Inl ConnectionError
             | Response status_code \<Rightarrow> raise_for_status status_code)))"

subsection \<open>The driver: main\<close>

text \<open>
  What the process observes of its environment: \<open>start_time\<close> is the reading of
  \<^verbatim>\<open>time.time()\<close> at line 102, \<open>time_at k\<close> the reading at the \<open>k\<close>-th test of
  the loop condition (from 0), \<open>now_at k i\<close> the timestamp taken for the \<open>i\<close>-th
  vehicle in iteration \<open>k\<close>, \<open>post_at k\<close> the remote end in iteration \<open>k\<close>.
\<close>

record world =
  start_time :: real
  time_at :: "nat \<Rightarrow> real"
  now_at :: "nat \<Rightarrow> nat \<Rightarrow> string"
  post_at :: "nat \<Rightarrow> request \<Rightarrow> post_result"

text \<open>Line 101: the fleet is created in the order of the identifiers.\<close>

fun create_fleet :: "string list \<Rightarrow> rng \<Rightarrow> error + (AGVState list \<times> rng)" where
  "create_fleet [] g = Inr ([], g)"
| "create_fleet (aid # aids) g =
     (case AGVState_init aid g of Inl e \<Rightarrow> Inl e | Inr (a, g1) \<Rightarrow>
     (case create_fleet aids g1 of Inl e \<Rightarrow> Inl e | Inr (as, g2) \<Rightarrow> Inr (a # as, g2)))"

text \<open>
  Lines 106-109: every vehicle, in list order, is ticked and then rendered; \<open>i\<close> is the
  index of the head of the list in the fleet. When a tick raises, the vehicles before it
  have been advanced, the vehicle itself is as the tick left it and the later ones are
  untouched.
\<close>

fun fleet_tick ::
  "real \<Rightarrow> (nat \<Rightarrow> string) \<Rightarrow> nat \<Rightarrow> AGVState list \<Rightarrow> rng
     \<Rightarrow> (error \<times> AGVState list) + (AGVState list \<times> doc list \<times> rng)" where
  "fleet_tick dt now i [] g = Inr ([], [], g)"
| "fleet_tick dt now i (agv # agvs) g =
     (case tick dt agv g of Inl (e, agv') \<Rightarrow> Inl (e, agv' # agvs) | Inr (agv', g1) \<Rightarrow>
     (case fleet_tick dt now (Suc i) agvs g1 of
        Inl (e, agvs') \<Rightarrow> Inl (e, agv' # agvs')
      | Inr (agvs', docs, g2) \<Rightarrow>
        Inr (agv' # agvs', to_doc (now i) agv' # docs, g2)))"

text \<open>
  The fleet after \<open>n\<close> advances (lines 107-108 for every vehicle, \<open>n\<close> times):
  rendering reads the vehicles only, so the records are dropped here.
\<close>

fun fleet_after ::
  "nat \<Rightarrow> real \<Rightarrow> AGVState list \<Rightarrow> rng
     \<Rightarrow> (error \<times> AGVState list) + (AGVState list \<times> rng)" where
  "fleet_after 0 dt agvs g = Inr (agvs, g)"
| "fleet_after (Suc n) dt agvs g =
     (case fleet_after n dt agvs g of Inl (e, agvs') \<Rightarrow> Inl (e, agvs') | Inr (agvs1, g1) \<Rightarrow>
     (case fleet_tick dt (\<lambda>i. []) 0 agvs1 g1 of
        Inl (e, agvs') \<Rightarrow> Inl (e, agvs')
      | Inr (agvs', docs, g') \<Rightarrow> Inr (agvs', g')))"

text \<open>
  How a run ends: the exception that left \<^verbatim>\<open>main\<close> if any, the value of the variable
  \<^verbatim>\<open>tick\<close>, the batches passed to \<^verbatim>\<open>bulk_index\<close> in order, what was printed, and
  the fleet in memory at that moment (\<open>None\<close> while the variable \<^verbatim>\<open>agvs\<close> is not
  bound).
\<close>

record run =
  r_raised :: "error option"
  r_tick :: nat
  r_batches :: "doc list list"
  r_stdout :: "string list"
  r_agvs :: "AGVState list option"

text \<open>
  The loop of lines 105-115; \<open>ticks\<close> is the variable \<^verbatim>\<open>tick\<close>. Each iteration spends one unit of fuel; \<open>None\<close> means that
  the fuel ran out before the clock ended the loop. \<^verbatim>\<open>time.sleep\<close> raises ValueError
  for a negative length.
\<close>

fun main_loop ::
  "nat \<Rightarrow> config \<Rightarrow> world \<Rightarrow> AGVState list \<Rightarrow> rng \<Rightarrow> nat \<Rightarrow> doc list list \<Rightarrow> run option" where
  "main_loop 0 cfg w agvs g ticks batches = None"
| "main_loop (Suc fuel) cfg w agvs g ticks batches =
     (if time_at w ticks - start_time w < real_of_int (DURATION_SEC cfg) then
        (case fleet_tick (TICK_INTERVAL_SEC cfg) (now_at w ticks) 0 agvs g of
           Inl (e, agvs') \<Rightarrow>
             Some \<lparr>r_raised = Some e, r_tick = ticks, r_batches = batches, r_stdout = [],
                   r_agvs = Some agvs'\<rparr>
         | Inr (agvs', docs, g') \<Rightarrow>
            (case bulk_index cfg (post_at w ticks) (INDEX_NAME cfg) docs of
               Inl e \<Rightarrow>
                 Some \<lparr>r_raised = Some e, r_tick = ticks, r_batches = batches @ [docs],
                       r_stdout = [], r_agvs = Some agvs'\<rparr>
             | Inr u \<Rightarrow>
                 if TICK_INTERVAL_SEC cfg < 0 then
                   Some \<lparr>r_raised = Some ValueError, r_tick = ticks + 1,
                         r_batches = batches @ [docs], r_stdout = [], r_agvs = Some agvs'\<rparr>
                 else main_loop fuel cfg w agvs' g' (ticks + 1) (batches @ [docs])))
      else
        Some \<lparr>r_raised = None, r_tick = ticks, r_batches = batches,
              r_stdout = [''Simulation finished after '' @ str_nat ticks @ '' ticks''],
              r_agvs = Some agvs\<rparr>)"

text \<open>\<^verbatim>\<open>main\<close> (lines 97-115).\<close>

definition main :: "nat \<Rightarrow> config \<Rightarrow> world \<Rightarrow> rng \<Rightarrow> run option" where
  "main fuel cfg w g =
     (if falsy (ES_URL cfg) \<or> falsy (ES_API_KEY cfg) then
        Some \<lparr>r_raised = Some SystemExit, r_tick = 0, r_batches = [], r_stdout = [],
              r_agvs = None\<rparr>
      else
        (case create_fleet AGV_IDS g of
           Inl e \<Rightarrow>
             Some \<lparr>r_raised = Some e, r_tick = 0, r_batches = [], r_stdout = [],
                   r_agvs = None\<rparr>
         | Inr (agvs, g') \<Rightarrow> main_loop fuel cfg w agvs g' 0 []))"

subsection \<open>Concrete generators and predicates of the properties\<close>

text \<open>The generator whose first draws are the elements of a list, every later draw \<open>c\<close>.\<close>

fun rng_pad :: "real list \<Rightarrow> real \<Rightarrow> rng" where
  "rng_pad [] c n = c"
| "rng_pad (x # xs) c 0 = x"
| "rng_pad (x # xs) c (Suc n) = rng_pad xs c n"

text \<open>The lane of a vehicle belongs to the lanes of its yard block.\<close>

definition lane_in_block :: "AGVState \<Rightarrow> bool" where
  "lane_in_block s =
     (case LANES_BY_BLOCK (yard_block s) of None \<Rightarrow> False | Some lanes \<Rightarrow> lane_id s \<in> set lanes)"

text \<open>A snapshot without its capture timestamp.\<close>

definition strip_timestamp :: "doc \<Rightarrow> doc" where
  "strip_timestamp d = d\<lparr>d_timestamp := []\<rparr>"

text \<open>Two vehicles near the end of their lane, for concrete instances of the properties.\<close>

definition agv_example :: AGVState where
  "agv_example =
     \<lparr>agv_id = ''AGV-01'', yard_block = ''YB10'', lane_id = ''L41'', position_m = 999,
      speed_kph = 10, soc_pct = 50, job_id = ''JOB-550000'', load_status = ''EMPTY''\<rparr>"

definition agv_low :: AGVState where
  "agv_low = agv_example\<lparr>soc_pct := 25\<rparr>"

text \<open>
  A configuration that lets the loop run for two seconds, and three environments: one
  whose remote end accepts every request, one whose remote end answers every request with
  status 500, and one that differs from the first in every clock reading and timestamp.
\<close>

definition cfg_example :: config where
  "cfg_example =
     \<lparr>ES_URL = Some ''https://elastic.example.com'', ES_API_KEY = Some ''key'',
      INDEX_NAME = ''agv_telemetry'', TICK_INTERVAL_SEC = 1, DURATION_SEC = 2\<rparr>"

definition world_ok :: world where
  "world_ok =
     \<lparr>start_time = 0, time_at = (\<lambda>k. real k),
      now_at = (\<lambda>k i. ''2026-01-01T00:00:00+00:00''),
      post_at = (\<lambda>k req. Response 200)\<rparr>"

definition world_down :: world where
  "world_down = world_ok\<lparr>post_at := (\<lambda>k req. Response 500)\<rparr>"

definition world_later :: world where
  "world_later =
     \<lparr>start_time = 100, time_at = (\<lambda>k. 100 + real k),
      now_at = (\<lambda>k i. ''2026-06-30T12:00:00+00:00''),
      post_at = (\<lambda>k req. Response 201)\<rparr>"

section \<open>Properties\<close>

subsection \<open>The generator\<close>

lemma random_random_valid:
  assumes "valid_rng g" and "random_random g = (u, g')"
  shows "0 \<le> u \<and> u < 1 \<and> valid_rng g'"
  using assms by (auto simp: random_random_def valid_rng_def)

lemma uniform_range:
  assumes "valid_rng g" and "a \<le> b" and "uniform a b g = (x, g')"
  shows "a \<le> x \<and> x \<le> b \<and> valid_rng g'"
proof -
  obtain u where u: "random_random g = (u, g')" and x: "x = a + (b - a) * u"
    using assms(3) by (auto simp: uniform_def split: prod.splits)
  from random_random_valid [OF assms(1) u] have u01: "0 \<le> u" "u < 1" and v: "valid_rng g'"
    by simp_all
  have "0 \<le> (b - a) * u" using assms(2) u01 by simp
  moreover have "(b - a) * u \<le> (b - a) * 1"
    using assms(2) u01 by (intro mult_left_mono) simp_all
  ultimately show ?thesis using x v by simp
qed

lemma randbelow_range:
  assumes "valid_rng g" and "0 < n" and "randbelow n g = (k, g')"
  shows "k < n \<and> valid_rng g'"
proof -
  obtain u where u: "random_random g = (u, g')" and k: "k = nat \<lfloor>u * real n\<rfloor>"
    using assms(3) by (auto simp: randbelow_def split: prod.splits)
  from random_random_valid [OF assms(1) u] have u01: "0 \<le> u" "u < 1" and v: "valid_rng g'"
    by simp_all
  have "u * real n < real n" using u01 assms(2) by simp
  then have "\<lfloor>u * real n\<rfloor> < int n" by (simp add: floor_less_iff)
  moreover have "0 \<le> \<lfloor>u * real n\<rfloor>" using u01 by simp
  ultimately have "nat \<lfloor>u * real n\<rfloor> < n" by linarith
  then show ?thesis using k v by simp
qed

lemma choice_ok:
  assumes "valid_rng g" and "seq \<noteq> []"
  shows "\<exists>x g'. choice seq g = Inr (x, g') \<and> x \<in> set seq \<and> valid_rng g'"
proof -
  obtain i g' where r: "randbelow (length seq) g = (i, g')"
    by (cases "randbelow (length seq) g")
  from randbelow_range [OF assms(1) _ r] assms(2) have "i < length seq" "valid_rng g'"
    by simp_all
  then show ?thesis using r assms(2) by (simp add: choice_def)
qed

lemma choice_mem:
  assumes "choice seq g = Inr (x, g')"
  shows "x \<in> set seq"
  using assms by (auto simp: choice_def split: if_splits prod.splits)

lemma randint_ok:
  assumes "valid_rng g" and "a \<le> b"
  shows "\<exists>n g'. randint a b g = Inr (n, g') \<and> a \<le> n \<and> n \<le> b \<and> valid_rng g'"
proof -
  obtain k g' where r: "randbelow (nat (b + 1 - a)) g = (k, g')"
    by (cases "randbelow (nat (b + 1 - a)) g")
  from randbelow_range [OF assms(1) _ r] assms(2) have "k < nat (b + 1 - a)" "valid_rng g'"
    by simp_all
  then show ?thesis using r assms(2) by (simp add: randint_def)
qed

lemma new_job_id_ok:
  assumes "valid_rng g"
  shows "\<exists>n g' g''. randint 100000 999999 g = Inr (n, g'')
           \<and> new_job_id g = Inr (''JOB-'' @ str_int n, g')
           \<and> 100000 \<le> n \<and> n \<le> 999999 \<and> valid_rng g'"
  using randint_ok [OF assms, of 100000 999999] by (auto simp: new_job_id_def)

lemma rng_pad_valid:
  assumes "list_all (\<lambda>x. 0 \<le> x \<and> x < 1) xs" and "0 \<le> c" and "c < 1"
  shows "valid_rng (rng_pad xs c)"
proof -
  have "0 \<le> rng_pad xs c n \<and> rng_pad xs c n < 1" for n
    using assms(1)
  proof (induction xs arbitrary: n)
    case Nil
    then show ?case using assms(2,3) by simp
  next
    case (Cons x xs)
    then show ?case by (cases n) simp_all
  qed
  then show ?thesis by (simp add: valid_rng_def)
qed

subsection \<open>Yard topology\<close>

lemma getitem_Inr: "getitem d k = Inr v \<longleftrightarrow> d k = Some v"
  by (simp add: getitem_def split: option.splits)

lemma LANES_BY_BLOCK_ok:
  assumes "yb \<in> set YARD_BLOCKS"
  shows "\<exists>lanes. LANES_BY_BLOCK yb = Some lanes \<and> lanes \<noteq> []"
  using assms by (auto simp: YARD_BLOCKS_def LANES_BY_BLOCK_def)

lemma lane_in_block_cong:
  assumes "yard_block s' = yard_block s" and "lane_id s' = lane_id s"
  shows "lane_in_block s' = lane_in_block s"
  using assms by (simp add: lane_in_block_def split: option.splits)

lemma pick_block_lane:
  assumes "valid_rng g"
  shows "\<exists>yb g1 lanes lane g2. choice YARD_BLOCKS g = Inr (yb, g1)
           \<and> getitem LANES_BY_BLOCK yb = Inr lanes \<and> choice lanes g1 = Inr (lane, g2)
           \<and> LANES_BY_BLOCK yb = Some lanes \<and> lane \<in> set lanes \<and> valid_rng g2"
proof -
  have "YARD_BLOCKS \<noteq> []" by (simp add: YARD_BLOCKS_def)
  from choice_ok [OF assms this] obtain yb g1 where
    c1: "choice YARD_BLOCKS g = Inr (yb, g1)" "yb \<in> set YARD_BLOCKS" "valid_rng g1"
    by blast
  from LANES_BY_BLOCK_ok [OF c1(2)] obtain lanes where
    l: "LANES_BY_BLOCK yb = Some lanes" "lanes \<noteq> []" by blast
  from choice_ok [OF c1(3) l(2)] obtain lane g2 where
    c2: "choice lanes g1 = Inr (lane, g2)" "lane \<in> set lanes" "valid_rng g2" by blast
  show ?thesis using c1 l c2 by (auto simp: getitem_Inr)
qed

subsection \<open>Creation\<close>

lemma AGVState_init_ok:
  assumes v: "valid_rng g"
  shows "\<exists>s0 g0. AGVState_init aid g = Inr (s0, g0) \<and> valid_rng g0 \<and> agv_id s0 = aid
           \<and> lane_in_block s0
           \<and> 0 \<le> position_m s0 \<and> position_m s0 \<le> 1000
           \<and> 8 \<le> speed_kph s0 \<and> speed_kph s0 \<le> 14
           \<and> 60 \<le> soc_pct s0 \<and> soc_pct s0 \<le> 100"
proof -
  from pick_block_lane [OF v] obtain yb g1 lanes lane g2 where
    p: "choice YARD_BLOCKS g = Inr (yb, g1)" "getitem LANES_BY_BLOCK yb = Inr lanes"
       "choice lanes g1 = Inr (lane, g2)" "LANES_BY_BLOCK yb = Some lanes" "lane \<in> set lanes"
    and v2: "valid_rng g2" by blast
  obtain pos g3 where a: "uniform 0 1000 g2 = (pos, g3)" by (cases "uniform 0 1000 g2")
  from uniform_range [OF v2 _ a] have pos: "0 \<le> pos" "pos \<le> 1000" and v3: "valid_rng g3"
    by simp_all
  obtain spd g4 where b: "uniform 8 14 g3 = (spd, g4)" by (cases "uniform 8 14 g3")
  from uniform_range [OF v3 _ b] have spd: "8 \<le> spd" "spd \<le> 14" and v4: "valid_rng g4"
    by simp_all
  obtain soc g5 where c: "uniform 60 100 g4 = (soc, g5)" by (cases "uniform 60 100 g4")
  from uniform_range [OF v4 _ c] have soc: "60 \<le> soc" "soc \<le> 100" and v5: "valid_rng g5"
    by simp_all
  from new_job_id_ok [OF v5] obtain job g6 where
    j: "new_job_id g5 = Inr (job, g6)" and v6: "valid_rng g6" by blast
  from choice_ok [OF v6, of "[''EMPTY'', ''LOADED'']"] obtain ls g7 where
    l: "choice [''EMPTY'', ''LOADED''] g6 = Inr (ls, g7)" and v7: "valid_rng g7" by auto
  show ?thesis
    using p a b c j l pos spd soc v7 by (simp add: AGVState_init_def lane_in_block_def)
qed

subsection \<open>The blocks of tick\<close>

lemma tick_speed_valid:
  assumes "valid_rng g" and "tick_speed s g = (s1, g1)"
  shows "valid_rng g1"
  using assms by (auto simp: tick_speed_def uniform_def random_random_def valid_rng_def)

lemma tick_speed_bound:
  assumes "tick_speed s g = (s1, g1)"
  shows "4 \<le> speed_kph s1 \<and> speed_kph s1 \<le> 18"
  using assms by (auto simp: tick_speed_def split: prod.splits)

lemma tick_speed_frame:
  assumes "tick_speed s g = (s1, g1)"
  shows "agv_id s1 = agv_id s \<and> yard_block s1 = yard_block s \<and> lane_id s1 = lane_id s
           \<and> position_m s1 = position_m s \<and> soc_pct s1 = soc_pct s \<and> job_id s1 = job_id s
           \<and> load_status s1 = load_status s"
  using assms by (auto simp: tick_speed_def split: prod.splits)

lemma tick_move_frame:
  "agv_id (tick_move dt s) = agv_id s \<and> yard_block (tick_move dt s) = yard_block s
     \<and> lane_id (tick_move dt s) = lane_id s \<and> speed_kph (tick_move dt s) = speed_kph s
     \<and> soc_pct (tick_move dt s) = soc_pct s \<and> job_id (tick_move dt s) = job_id s
     \<and> load_status (tick_move dt s) = load_status s"
  by (simp add: tick_move_def)

lemma tick_move_position:
  "position_m (tick_move dt s) = position_m s + speed_kph s * 1000 / 3600 * dt"
  by (simp add: tick_move_def)

lemma tick_lane_end_ok:
  assumes v: "valid_rng g"
  shows "\<exists>s' g'. tick_lane_end s g = Inr (s', g') \<and> valid_rng g'"
proof (cases "position_m s \<ge> 1000")
  case False
  then show ?thesis using v by (simp add: tick_lane_end_def)
next
  case True
  from new_job_id_ok [OF v] obtain job g1 where
    j: "new_job_id g = Inr (job, g1)" and v1: "valid_rng g1" by blast
  obtain flip g2 where f: "random_random g1 = (flip, g2)" by (cases "random_random g1")
  from random_random_valid [OF v1 f] have v2: "valid_rng g2" by simp
  obtain move g3 where m: "random_random g2 = (move, g3)" by (cases "random_random g2")
  from random_random_valid [OF v2 m] have v3: "valid_rng g3" by simp
  from pick_block_lane [OF v3] obtain yb g4 lanes lane g5 where
    p: "choice YARD_BLOCKS g3 = Inr (yb, g4)" "getitem LANES_BY_BLOCK yb = Inr lanes"
       "choice lanes g4 = Inr (lane, g5)" and v5: "valid_rng g5" by blast
  show ?thesis
  proof (cases "move < 0.3")
    case True
    with \<open>position_m s \<ge> 1000\<close> j f m p v5 show ?thesis
      by (simp add: tick_lane_end_def Let_def)
  next
    case False
    with \<open>position_m s \<ge> 1000\<close> j f m v3 show ?thesis
      by (simp add: tick_lane_end_def Let_def)
  qed
qed

lemma tick_lane_end_frame:
  assumes "tick_lane_end s g = Inr (s', g')"
  shows "speed_kph s' = speed_kph s \<and> soc_pct s' = soc_pct s \<and> agv_id s' = agv_id s
           \<and> position_m s' = (if position_m s \<ge> 1000 then 0 else position_m s)"
  using assms
  by (auto simp: tick_lane_end_def Let_def split: if_splits sum.splits prod.splits)

lemma tick_lane_end_lane:
  assumes "tick_lane_end s g = Inr (s', g')" and "lane_in_block s"
  shows "lane_in_block s'"
  using assms
  by (auto simp: tick_lane_end_def Let_def getitem_Inr lane_in_block_def dest: choice_mem
           split: if_splits sum.splits prod.splits option.splits)

lemma tick_battery_valid:
  assumes "valid_rng g" and "tick_battery dt s g = (s', g')"
  shows "valid_rng g'"
  using assms
  by (auto simp: tick_battery_def Let_def uniform_def random_random_def valid_rng_def
           split: if_splits prod.splits)

lemma tick_battery_frame:
  assumes "tick_battery dt s g = (s', g')"
  shows "agv_id s' = agv_id s \<and> yard_block s' = yard_block s \<and> lane_id s' = lane_id s
           \<and> position_m s' = position_m s \<and> speed_kph s' = speed_kph s
           \<and> job_id s' = job_id s \<and> load_status s' = load_status s"
  using assms
  by (auto simp: tick_battery_def Let_def split: if_splits prod.splits)

lemma tick_ok:
  assumes v: "valid_rng g"
  shows "\<exists>s' g'. tick dt s g = Inr (s', g') \<and> valid_rng g'"
proof -
  obtain s1 g1 where a: "tick_speed s g = (s1, g1)" by (cases "tick_speed s g")
  from tick_speed_valid [OF v a] have v1: "valid_rng g1" .
  from tick_lane_end_ok [OF v1] obtain s2 g2 where
    b: "tick_lane_end (tick_move dt s1) g1 = Inr (s2, g2)" and v2: "valid_rng g2" by blast
  obtain s3 g3 where c: "tick_battery dt s2 g2 = (s3, g3)" by (cases "tick_battery dt s2 g2")
  from tick_battery_valid [OF v2 c] have "valid_rng g3" .
  with a b c show ?thesis by (simp add: tick_def tick_motion_def)
qed

text \<open>The blocks as seen from a tick that returned.\<close>

lemma tick_blocks:
  assumes "tick dt s g = Inr (s', g')"
  obtains s1 g1 s2 g2 where "tick_speed s g = (s1, g1)"
    and "tick_lane_end (tick_move dt s1) g1 = Inr (s2, g2)"
    and "tick_battery dt s2 g2 = (s', g')"
  using assms by (auto simp: tick_def tick_motion_def split: prod.splits sum.splits)

lemma tick_speed_kph:
  assumes "tick dt s g = Inr (s', g')"
  shows "4 \<le> speed_kph s' \<and> speed_kph s' \<le> 18"
proof -
  from assms obtain s1 g1 s2 g2 where a: "tick_speed s g = (s1, g1)"
    and b: "tick_lane_end (tick_move dt s1) g1 = Inr (s2, g2)"
    and c: "tick_battery dt s2 g2 = (s', g')" by (rule tick_blocks)
  have "speed_kph s' = speed_kph s1"
    using tick_battery_frame [OF c] tick_lane_end_frame [OF b] tick_move_frame [of dt s1]
    by simp
  then show ?thesis using tick_speed_bound [OF a] by simp
qed

lemma tick_agv_id:
  assumes "tick dt s g = Inr (s', g')"
  shows "agv_id s' = agv_id s"
proof -
  from assms obtain s1 g1 s2 g2 where a: "tick_speed s g = (s1, g1)"
    and b: "tick_lane_end (tick_move dt s1) g1 = Inr (s2, g2)"
    and c: "tick_battery dt s2 g2 = (s', g')" by (rule tick_blocks)
  show ?thesis
    using tick_battery_frame [OF c] tick_lane_end_frame [OF b] tick_move_frame [of dt s1]
      tick_speed_frame [OF a] by simp
qed

lemma tick_lane_in_block:
  assumes "tick dt s g = Inr (s', g')" and "lane_in_block s"
  shows "lane_in_block s'"
proof -
  from assms(1) obtain s1 g1 s2 g2 where a: "tick_speed s g = (s1, g1)"
    and b: "tick_lane_end (tick_move dt s1) g1 = Inr (s2, g2)"
    and c: "tick_battery dt s2 g2 = (s', g')" by (rule tick_blocks)
  have "lane_in_block (tick_move dt s1) = lane_in_block s"
    using tick_speed_frame [OF a] tick_move_frame [of dt s1]
    by (intro lane_in_block_cong) simp_all
  with assms(2) tick_lane_end_lane [OF b] have "lane_in_block s2" by simp
  moreover have "lane_in_block s' = lane_in_block s2"
    using tick_battery_frame [OF c] by (intro lane_in_block_cong) simp_all
  ultimately show ?thesis by simp
qed

lemma tick_position:
  assumes "tick dt s g = Inr (s', g')" and "tick_speed s g = (s1, g1)"
  shows "position_m s' =
           (if position_m (tick_move dt s1) \<ge> 1000 then 0 else position_m (tick_move dt s1))"
proof -
  from assms have "\<exists>s2 g2. tick_lane_end (tick_move dt s1) g1 = Inr (s2, g2)
      \<and> tick_battery dt s2 g2 = (s', g')"
    by (auto simp: tick_def tick_motion_def split: prod.splits sum.splits)
  then obtain s2 g2 where
    b: "tick_lane_end (tick_move dt s1) g1 = Inr (s2, g2)"
    and c: "tick_battery dt s2 g2 = (s', g')" by blast
  show ?thesis
    using tick_battery_frame [OF c] tick_lane_end_frame [OF b] by simp
qed

subsection \<open>Sequences of ticks\<close>

lemma run_ticks_invariant:
  assumes step: "\<And>dt s g s' g'. Q dt \<Longrightarrow> P s \<Longrightarrow> tick dt s g = Inr (s', g') \<Longrightarrow> P s'"
    and "valid_rng g" and "P s" and "list_all Q dts"
  shows "\<exists>s' g'. run_ticks dts s g = Inr (s', g') \<and> P s' \<and> valid_rng g'"
  using assms(2-)
proof (induction dts arbitrary: s g)
  case Nil
  then show ?case by simp
next
  case (Cons dt dts)
  from tick_ok [OF Cons.prems(1)] obtain s1 g1 where
    t: "tick dt s g = Inr (s1, g1)" and v1: "valid_rng g1" by blast
  from Cons.prems have "Q dt" and rest: "list_all Q dts" by simp_all
  from step [OF \<open>Q dt\<close> Cons.prems(2) t] have "P s1" .
  from Cons.IH [OF v1 this rest] show ?case using t by simp
qed

subsection \<open>The battery\<close>

lemma tick_battery_upper:
  assumes v: "valid_rng g" and dt: "0 \<le> dt" and le: "soc_pct s \<le> 100"
    and t: "tick_battery dt s g = (s', g')"
  shows "soc_pct s' \<le> 100"
proof -
  obtain drain g1 where d: "uniform 0.01 0.05 g = (drain, g1)"
    by (cases "uniform 0.01 0.05 g")
  from uniform_range [OF v _ d] have dr: "0.01 \<le> drain" and v1: "valid_rng g1" by simp_all
  have "0 \<le> drain * dt" using dr dt by simp
  then have a: "soc_pct s - drain * dt \<le> 100" using le by simp
  obtain r g2 where r: "random_random g1 = (r, g2)" by (cases "random_random g1")
  from random_random_valid [OF v1 r] have v2: "valid_rng g2" by simp
  obtain c g3 where c: "uniform 70 100 g2 = (c, g3)" by (cases "uniform 70 100 g2")
  from uniform_range [OF v2 _ c] have "c \<le> 100" by simp
  with a d r c t show ?thesis
    by (auto simp: tick_battery_def Let_def split: if_splits)
qed

lemma tick_soc_upper:
  assumes v: "valid_rng g" and dt: "0 \<le> dt" and le: "soc_pct s \<le> 100"
    and t: "tick dt s g = Inr (s', g')"
  shows "soc_pct s' \<le> 100"
proof -
  from t obtain s1 g1 s2 g2 where a: "tick_speed s g = (s1, g1)"
    and b: "tick_lane_end (tick_move dt s1) g1 = Inr (s2, g2)"
    and c: "tick_battery dt s2 g2 = (s', g')" by (rule tick_blocks)
  from tick_speed_valid [OF v a] have v1: "valid_rng g1" .
  from tick_lane_end_ok [OF v1, of "tick_move dt s1"] b have v2: "valid_rng g2" by auto
  have "soc_pct s2 = soc_pct s"
    using tick_lane_end_frame [OF b] tick_move_frame [of dt s1] tick_speed_frame [OF a]
    by simp
  with le have "soc_pct s2 \<le> 100" by simp
  from tick_battery_upper [OF v2 dt this c] show ?thesis .
qed

text \<open>The generator that always draws the same value.\<close>

lemma random_random_const: "random_random (rng_pad [] c) = (c, rng_pad [] c)"
  by (simp add: random_random_def fun_eq_iff)

lemma tick_const_half:
  assumes t: "tick 1 s (rng_pad [] (1 / 2)) = Inr (s', g')"
  shows "soc_pct s' = soc_pct s - 3 / 100 \<and> g' = rng_pad [] (1 / 2)"
proof -
  from t obtain s1 g1 s2 g2 where a: "tick_speed s (rng_pad [] (1 / 2)) = (s1, g1)"
    and b: "tick_lane_end (tick_move 1 s1) g1 = Inr (s2, g2)"
    and c: "tick_battery 1 s2 g2 = (s', g')" by (rule tick_blocks)
  have g1: "g1 = rng_pad [] (1 / 2)"
    using a by (auto simp: tick_speed_def uniform_def random_random_const)
  have g2: "g2 = rng_pad [] (1 / 2)"
    using b unfolding g1
    by (auto simp: tick_lane_end_def new_job_id_def randint_def randbelow_def choice_def
          random_random_const Let_def split: if_splits sum.splits prod.splits)
  have "soc_pct s2 = soc_pct s"
    using tick_lane_end_frame [OF b] tick_move_frame [of 1 s1] tick_speed_frame [OF a]
    by simp
  moreover have "soc_pct s' = soc_pct s2 - 3 / 100 \<and> g' = rng_pad [] (1 / 2)"
    using c unfolding g2
    by (auto simp: tick_battery_def uniform_def random_random_const Let_def split: if_splits)
  ultimately show ?thesis by simp
qed

lemma run_ticks_const_half:
  "\<exists>s' g'. run_ticks (replicate n 1) s (rng_pad [] (1 / 2)) = Inr (s', g')
     \<and> soc_pct s' = soc_pct s - real n * (3 / 100)"
proof (induction n arbitrary: s)
  case 0
  then show ?case by simp
next
  case (Suc n)
  have v: "valid_rng (rng_pad [] (1 / 2))" by (rule rng_pad_valid) simp_all
  from tick_ok [OF v] obtain s1 g1 where t: "tick 1 s (rng_pad [] (1 / 2)) = Inr (s1, g1)"
    by blast
  from tick_const_half [OF t] have s1: "soc_pct s1 = soc_pct s - 3 / 100"
    and g1: "g1 = rng_pad [] (1 / 2)" by simp_all
  from Suc.IH [of s1] obtain s' g' where
    r: "run_ticks (replicate n 1) s1 (rng_pad [] (1 / 2)) = Inr (s', g')"
    and e: "soc_pct s' = soc_pct s1 - real n * (3 / 100)" by blast
  from t g1 r have "run_ticks (replicate (Suc n) 1) s (rng_pad [] (1 / 2)) = Inr (s', g')"
    by simp
  moreover have "real (Suc n) * (3 / 100) = 3 / 100 + real n * (3 / 100)"
    by (simp add: field_simps)
  with e s1 have "soc_pct s' = soc_pct s - real (Suc n) * (3 / 100)"
    by linarith
  ultimately show ?case by blast
qed

lemma str_550000: "str_int 550000 = ''550000''"
  by (simp add: str_int_def str_nat.simps digit_char_def)

lemma random_random_pad: "random_random (rng_pad (x # xs) c) = (x, rng_pad xs c)"
  by (simp add: random_random_def fun_eq_iff)

subsection \<open>Decimal strings are injective\<close>

lemma digit_char_inj:
  assumes "a < 10" and "b < 10" and "digit_char a = digit_char b"
  shows "a = b"
proof -
  have a: "a \<in> {0, 1, 2, 3, 4, 5, 6, 7, 8, 9}" using assms(1) by auto
  have b: "b \<in> {0, 1, 2, 3, 4, 5, 6, 7, 8, 9}" using assms(2) by auto
  from a b assms(3) show ?thesis
    by (auto simp: digit_char_def)
qed

lemma digit_char_not_minus:
  assumes "d < 10"
  shows "digit_char d \<noteq> CHR ''-''"
proof -
  have "d \<in> {0, 1, 2, 3, 4, 5, 6, 7, 8, 9}" using assms by auto
  then show ?thesis by (auto simp: digit_char_def)
qed

lemma str_nat_nonempty: "str_nat n \<noteq> []"
  by (subst str_nat.simps) simp

lemma str_nat_inj: "str_nat n = str_nat m \<Longrightarrow> n = m"
proof (induction n arbitrary: m rule: str_nat.induct)
  case (1 n)
  show ?case
  proof (cases "n < 10")
    case True
    then have n: "str_nat n = [digit_char n]" by (subst str_nat.simps) simp
    show ?thesis
    proof (cases "m < 10")
      case True
      then have "str_nat m = [digit_char m]" by (subst str_nat.simps) simp
      with n "1.prems" have "digit_char n = digit_char m" by simp
      with \<open>n < 10\<close> \<open>m < 10\<close> show ?thesis by (rule digit_char_inj)
    next
      case False
      then have "str_nat m = str_nat (m div 10) @ [digit_char (m mod 10)]"
        by (subst str_nat.simps) simp
      with n "1.prems" str_nat_nonempty [of "m div 10"] show ?thesis by simp
    qed
  next
    case False
    then have n: "str_nat n = str_nat (n div 10) @ [digit_char (n mod 10)]"
      by (subst str_nat.simps) simp
    show ?thesis
    proof (cases "m < 10")
      case True
      then have "str_nat m = [digit_char m]" by (subst str_nat.simps) simp
      with n "1.prems" str_nat_nonempty [of "n div 10"] show ?thesis by simp
    next
      case False
      then have "str_nat m = str_nat (m div 10) @ [digit_char (m mod 10)]"
        by (subst str_nat.simps) simp
      with n "1.prems" have e: "str_nat (n div 10) = str_nat (m div 10)"
        and d: "digit_char (n mod 10) = digit_char (m mod 10)" by simp_all
      from "1.IH" [OF \<open>\<not> n < 10\<close> e] have "n div 10 = m div 10" .
      moreover from d have "n mod 10 = m mod 10" by (intro digit_char_inj) simp_all
      ultimately show ?thesis by (metis div_mult_mod_eq)
    qed
  qed
qed

lemma str_nat_hd: "hd (str_nat n) \<noteq> CHR ''-''"
proof (induction n rule: str_nat.induct)
  case (1 n)
  show ?case
  proof (cases "n < 10")
    case True
    then have "str_nat n = [digit_char n]" by (subst str_nat.simps) simp
    with True show ?thesis by (simp add: digit_char_not_minus)
  next
    case False
    then have "str_nat n = str_nat (n div 10) @ [digit_char (n mod 10)]"
      by (subst str_nat.simps) simp
    with "1.IH" [OF False] str_nat_nonempty [of "n div 10"] show ?thesis by simp
  qed
qed

lemma str_int_inj:
  assumes "str_int i = str_int j"
  shows "i = j"
proof -
  have neg: "hd (str_int k) = CHR ''-''" if "k < 0" for k
    using that by (simp add: str_int_def)
  have pos: "hd (str_int k) \<noteq> CHR ''-''" if "\<not> k < 0" for k
    using that by (simp add: str_int_def str_nat_hd)
  show ?thesis
  proof (cases "i < 0")
    case True
    with neg [of i] pos [of j] assms have "j < 0" by auto
    with True assms have "str_nat (nat (- i)) = str_nat (nat (- j))"
      by (simp add: str_int_def)
    then have "nat (- i) = nat (- j)" by (rule str_nat_inj)
    with True \<open>j < 0\<close> show ?thesis by simp
  next
    case False
    with neg [of j] pos [of i] assms have "\<not> j < 0" by auto
    with False assms have "str_nat (nat i) = str_nat (nat j)" by (simp add: str_int_def)
    then have "nat i = nat j" by (rule str_nat_inj)
    with False \<open>\<not> j < 0\<close> show ?thesis by simp
  qed
qed

lemma tick_motion_soc:
  assumes "tick_motion dt s g = Inr (s2, g2)"
  shows "soc_pct s2 = soc_pct s"
proof -
  obtain s1 g1 where a: "tick_speed s g = (s1, g1)" by (cases "tick_speed s g")
  with assms have b: "tick_lane_end (tick_move dt s1) g1 = Inr (s2, g2)"
    by (simp add: tick_motion_def)
  show ?thesis
    using tick_lane_end_frame [OF b] tick_move_frame [of dt s1] tick_speed_frame [OF a]
    by simp
qed

lemma tick_motion_valid:
  assumes "valid_rng g" and "tick_motion dt s g = Inr (s2, g2)"
  shows "valid_rng g2"
proof -
  obtain s1 g1 where a: "tick_speed s g = (s1, g1)" by (cases "tick_speed s g")
  with assms(2) have b: "tick_lane_end (tick_move dt s1) g1 = Inr (s2, g2)"
    by (simp add: tick_motion_def)
  from tick_speed_valid [OF assms(1) a] have "valid_rng g1" .
  from tick_lane_end_ok [OF this, of "tick_move dt s1"] b show ?thesis by auto
qed

text \<open>The battery block in terms of its three draws.\<close>

lemma tick_battery_soc:
  "soc_pct (fst (tick_battery dt s g)) =
     (let drained = soc_pct s - fst (uniform 0.01 0.05 g) * dt
      in if drained < 30 \<and> g (Suc 0) < 1 / 100 then 70 + 30 * g (Suc (Suc 0)) else drained)"
  by (simp add: tick_battery_def uniform_def random_random_def Let_def split: prod.splits)

lemma tick_lane_end_reset:
  assumes "1000 \<le> position_m s" and "tick_lane_end s g = Inr (s', g')"
  shows "\<exists>job g1. new_job_id g = Inr (job, g1) \<and> job_id s' = job \<and> position_m s' = 0"
  using assms
  by (auto simp: tick_lane_end_def Let_def split: if_splits sum.splits prod.splits)

subsection \<open>The fleet\<close>

lemma AGV_IDS_eval:
  "AGV_IDS = [''AGV-01'', ''AGV-02'', ''AGV-03'', ''AGV-04'', ''AGV-05'', ''AGV-06'',
      ''AGV-07'', ''AGV-08'', ''AGV-09'', ''AGV-10'']"
  by (simp add: AGV_IDS_def fmt_02d_def str_nat.simps digit_char_def upt_rec)

lemma create_fleet_ok:
  assumes "valid_rng g"
  shows "\<exists>agvs g'. create_fleet ids g = Inr (agvs, g') \<and> valid_rng g'"
  using assms
proof (induction ids arbitrary: g)
  case Nil
  then show ?case by simp
next
  case (Cons aid ids)
  from AGVState_init_ok [OF Cons.prems] obtain a g1 where
    i: "AGVState_init aid g = Inr (a, g1)" and v1: "valid_rng g1" by blast
  from Cons.IH [OF v1] obtain as g2 where
    r: "create_fleet ids g1 = Inr (as, g2)" and v2: "valid_rng g2" by blast
  from i r v2 show ?case by simp
qed

lemma AGVState_init_agv_id:
  assumes "AGVState_init aid g = Inr (a, g')"
  shows "agv_id a = aid"
  using assms by (auto simp: AGVState_init_def split: sum.splits prod.splits)

lemma create_fleet_ids:
  assumes "create_fleet ids g = Inr (agvs, g')"
  shows "map agv_id agvs = ids"
  using assms
proof (induction ids arbitrary: g agvs)
  case Nil
  then show ?case by simp
next
  case (Cons aid ids)
  from Cons.prems obtain a g1 as where i: "AGVState_init aid g = Inr (a, g1)"
    and r: "create_fleet ids g1 = Inr (as, g')" and e: "agvs = a # as"
    by (auto split: sum.splits prod.splits)
  from AGVState_init_agv_id [OF i] Cons.IH [OF r] e show ?case by simp
qed

lemma fleet_tick_ok:
  assumes "valid_rng g"
  shows "\<exists>agvs' docs g'. fleet_tick dt now i agvs g = Inr (agvs', docs, g') \<and> valid_rng g'"
  using assms
proof (induction agvs arbitrary: g i)
  case Nil
  then show ?case by simp
next
  case (Cons a as)
  from tick_ok [OF Cons.prems] obtain a' g1 where
    t: "tick dt a g = Inr (a', g1)" and v1: "valid_rng g1" by blast
  from Cons.IH [OF v1] obtain as' docs g2 where
    r: "fleet_tick dt now (Suc i) as g1 = Inr (as', docs, g2)" and v2: "valid_rng g2"
    by blast
  from t r v2 show ?case by simp
qed

text \<open>One record per vehicle, in the order of the fleet, which a tick never changes.\<close>

lemma fleet_tick_ids:
  assumes "fleet_tick dt now i agvs g = Inr (agvs', docs, g')"
  shows "map agv_id agvs' = map agv_id agvs \<and> map d_agv_id docs = map agv_id agvs
           \<and> length docs = length agvs"
  using assms
proof (induction agvs arbitrary: g i agvs' docs)
  case Nil
  then show ?case by simp
next
  case (Cons a as)
  from Cons.prems obtain a' g1 as' ds where t: "tick dt a g = Inr (a', g1)"
    and r: "fleet_tick dt now (Suc i) as g1 = Inr (as', ds, g')"
    and e: "agvs' = a' # as'" "docs = to_doc (now i) a' # ds"
    by (auto split: sum.splits prod.splits)
  from tick_agv_id [OF t] Cons.IH [OF r] e show ?case by (simp add: to_doc_def)
qed

text \<open>The timestamps are the only trace that the clock leaves in a fleet tick.\<close>

lemma fleet_tick_clock:
  "fleet_tick dt now' i agvs g =
     (case fleet_tick dt now i agvs g of
        Inl x \<Rightarrow> Inl x
      | Inr (agvs', docs, g') \<Rightarrow>
          Inr (agvs', map2 (\<lambda>k a. to_doc (now' k) a) [i ..< i + length agvs'] agvs', g'))"
proof (induction agvs arbitrary: g i)
  case Nil
  then show ?case by simp
next
  case (Cons a as)
  show ?case
  proof (cases "tick dt a g")
    case (Inl x)
    then show ?thesis by (simp split: prod.splits)
  next
    case (Inr p)
    then obtain a' g1 where t: "tick dt a g = Inr (a', g1)" by (cases p) simp
    show ?thesis
    proof (cases "fleet_tick dt now (Suc i) as g1")
      case (Inl x)
      with t Cons.IH [of "Suc i" g1] show ?thesis by (simp split: prod.splits)
    next
      case (Inr q)
      then obtain as' ds g2 where r: "fleet_tick dt now (Suc i) as g1 = Inr (as', ds, g2)"
        by (cases q) auto
      with t Cons.IH [of "Suc i" g1] show ?thesis by (simp add: upt_rec [of i])
    qed
  qed
qed

lemma fleet_tick_strip:
  assumes "fleet_tick dt now i agvs g = Inr (agvs', docs, g')"
  shows "\<exists>docs'. fleet_tick dt now' i agvs g = Inr (agvs', docs', g')
           \<and> map strip_timestamp docs' = map strip_timestamp docs"
proof -
  let ?d = "\<lambda>nw. map2 (\<lambda>k a. to_doc (nw k) a) [i ..< i + length agvs'] agvs'"
  from fleet_tick_clock [of dt now' i agvs g now] assms
  have a: "fleet_tick dt now' i agvs g = Inr (agvs', ?d now', g')" by simp
  from fleet_tick_clock [of dt now i agvs g now] assms
  have b: "docs = ?d now" by simp
  have "map strip_timestamp (?d now') = map strip_timestamp (?d now)"
    by (auto simp: strip_timestamp_def to_doc_def)
  with a b show ?thesis by simp
qed

subsection \<open>Publishing\<close>

lemma bulk_index_Inl:
  assumes "bulk_index cfg post index docs = Inl e"
  shows "docs \<noteq> [] \<and> (e = ConnectionError \<or> (\<exists>c. e = HTTPError c \<and> 400 \<le> c \<and> c < 600))"
  using assms
  by (auto simp: bulk_index_def raise_for_status_def Let_def
           split: if_splits post_result.splits)

lemma bulk_index_status:
  assumes "docs \<noteq> []" and "\<And>req. post req = Response c"
  shows "bulk_index cfg post index docs = raise_for_status c"
  using assms by (simp add: bulk_index_def Let_def)

subsection \<open>The loop\<close>

lemma main_loop_batches_grow:
  assumes "main_loop fuel cfg w agvs g ticks batches = Some r"
  shows "prefix batches (r_batches r)"
  using assms
proof (induction fuel arbitrary: agvs g ticks batches)
  case 0
  then show ?case by simp
next
  case (Suc fuel)
  show ?case
  proof (cases "time_at w ticks - start_time w < real_of_int (DURATION_SEC cfg)")
    case False
    with Suc.prems show ?thesis by auto
  next
    case True
    note go = this
    show ?thesis
    proof (cases "fleet_tick (TICK_INTERVAL_SEC cfg) (now_at w ticks) 0 agvs g")
      case (Inl x)
      with go Suc.prems show ?thesis by (auto split: prod.splits)
    next
      case (Inr p)
      then obtain agvs' docs g' where
        f: "fleet_tick (TICK_INTERVAL_SEC cfg) (now_at w ticks) 0 agvs g = Inr (agvs', docs, g')"
        by (cases p) auto
      show ?thesis
      proof (cases "bulk_index cfg (post_at w ticks) (INDEX_NAME cfg) docs")
        case (Inl e)
        with go f Suc.prems show ?thesis by auto
      next
        case (Inr u)
        show ?thesis
        proof (cases "TICK_INTERVAL_SEC cfg < 0")
          case True
          with go f Inr Suc.prems show ?thesis by auto
        next
          case False
          with go f Inr Suc.prems have
            "main_loop fuel cfg w agvs' g' (ticks + 1) (batches @ [docs]) = Some r" by simp
          from Suc.IH [OF this] show ?thesis by (rule append_prefixD)
        qed
      qed
    qed
  qed
qed

text \<open>The five ways in which an iteration of the loop can go.\<close>

lemma main_loop_cases:
  assumes "main_loop (Suc fuel) cfg w agvs g ticks batches = Some r"
  obtains
    (finished) "\<not> time_at w ticks - start_time w < real_of_int (DURATION_SEC cfg)"
      and "r = \<lparr>r_raised = None, r_tick = ticks, r_batches = batches,
             r_stdout = [''Simulation finished after '' @ str_nat ticks @ '' ticks''],
             r_agvs = Some agvs\<rparr>"
  | (tick_raised) e agvs' where
      "fleet_tick (TICK_INTERVAL_SEC cfg) (now_at w ticks) 0 agvs g = Inl (e, agvs')"
      and "r = \<lparr>r_raised = Some e, r_tick = ticks, r_batches = batches, r_stdout = [],
             r_agvs = Some agvs'\<rparr>"
      and "time_at w ticks - start_time w < real_of_int (DURATION_SEC cfg)"
  | (publish_raised) agvs' docs g' e where
      "fleet_tick (TICK_INTERVAL_SEC cfg) (now_at w ticks) 0 agvs g = Inr (agvs', docs, g')"
      and "bulk_index cfg (post_at w ticks) (INDEX_NAME cfg) docs = Inl e"
      and "r = \<lparr>r_raised = Some e, r_tick = ticks, r_batches = batches @ [docs],
             r_stdout = [], r_agvs = Some agvs'\<rparr>"
      and "time_at w ticks - start_time w < real_of_int (DURATION_SEC cfg)"
  | (sleep_raised) agvs' docs g' where
      "fleet_tick (TICK_INTERVAL_SEC cfg) (now_at w ticks) 0 agvs g = Inr (agvs', docs, g')"
      and "bulk_index cfg (post_at w ticks) (INDEX_NAME cfg) docs = Inr ()"
      and "r = \<lparr>r_raised = Some ValueError, r_tick = ticks + 1,
             r_batches = batches @ [docs], r_stdout = [], r_agvs = Some agvs'\<rparr>"
      and "time_at w ticks - start_time w < real_of_int (DURATION_SEC cfg)"
      and "TICK_INTERVAL_SEC cfg < 0"
  | (continue) agvs' docs g' where
      "time_at w ticks - start_time w < real_of_int (DURATION_SEC cfg)"
      and "fleet_tick (TICK_INTERVAL_SEC cfg) (now_at w ticks) 0 agvs g = Inr (agvs', docs, g')"
      and "bulk_index cfg (post_at w ticks) (INDEX_NAME cfg) docs = Inr ()"
      and "\<not> TICK_INTERVAL_SEC cfg < 0"
      and "main_loop fuel cfg w agvs' g' (ticks + 1) (batches @ [docs]) = Some r"
proof (cases "time_at w ticks - start_time w < real_of_int (DURATION_SEC cfg)")
  case False
  with assms show ?thesis by (intro finished) auto
next
  case go: True
  show ?thesis
  proof (cases "fleet_tick (TICK_INTERVAL_SEC cfg) (now_at w ticks) 0 agvs g")
    case (Inl q)
    then obtain e agvs' where
      "fleet_tick (TICK_INTERVAL_SEC cfg) (now_at w ticks) 0 agvs g = Inl (e, agvs')"
      by (cases q) auto
    with go assms show ?thesis by (intro tick_raised [of e agvs']) auto
  next
    case (Inr p)
    then obtain agvs' docs g' where
      f: "fleet_tick (TICK_INTERVAL_SEC cfg) (now_at w ticks) 0 agvs g = Inr (agvs', docs, g')"
      by (cases p) auto
    show ?thesis
    proof (cases "bulk_index cfg (post_at w ticks) (INDEX_NAME cfg) docs")
      case (Inl e)
      with go f assms show ?thesis by (intro publish_raised [of agvs' docs g' e]) auto
    next
      case (Inr u)
      show ?thesis
      proof (cases "TICK_INTERVAL_SEC cfg < 0")
        case True
        with go f Inr assms show ?thesis by (intro sleep_raised [of agvs' docs g']) auto
      next
        case False
        with go f Inr assms show ?thesis by (intro continue [of agvs' docs g']) auto
      qed
    qed
  qed
qed

text \<open>Every batch of a run holds one record per vehicle, in the order of the fleet.\<close>

lemma main_loop_batches_ids:
  assumes "main_loop fuel cfg w agvs g ticks batches = Some r"
  shows "\<exists>new. r_batches r = batches @ new
           \<and> list_all (\<lambda>docs. map d_agv_id docs = map agv_id agvs) new"
  using assms
proof (induction fuel arbitrary: agvs g ticks batches)
  case 0
  then show ?case by simp
next
  case (Suc fuel)
  from Suc.prems show ?case
  proof (cases rule: main_loop_cases)
    case finished
    then show ?thesis by simp
  next
    case (tick_raised e)
    then show ?thesis by simp
  next
    case (publish_raised agvs' docs g' e)
    with fleet_tick_ids [OF publish_raised(1)] show ?thesis by simp
  next
    case (sleep_raised agvs' docs g')
    with fleet_tick_ids [OF sleep_raised(1)] show ?thesis by simp
  next
    case (continue agvs' docs g')
    from fleet_tick_ids [OF continue(2)] have ids: "map agv_id agvs' = map agv_id agvs"
      "map d_agv_id docs = map agv_id agvs" by simp_all
    from Suc.IH [OF continue(5)] obtain new where
      "r_batches r = (batches @ [docs]) @ new"
      "list_all (\<lambda>docs. map d_agv_id docs = map agv_id agvs') new" by blast
    with ids have "r_batches r = batches @ (docs # new)
        \<and> list_all (\<lambda>docs. map d_agv_id docs = map agv_id agvs) (docs # new)" by simp
    then show ?thesis by blast
  qed
qed

text \<open>
  A batch whose publication fails is the last batch of the run: the exception leaves
  \<^verbatim>\<open>main\<close>.
\<close>

lemma main_loop_publish_failure:
  assumes "main_loop fuel cfg w agvs g ticks batches = Some r"
    and "length batches = ticks"
    and "\<And>k. k < ticks \<Longrightarrow>
           bulk_index cfg (post_at w k) (INDEX_NAME cfg) (batches ! k) = Inr ()"
    and "k < length (r_batches r)"
    and "bulk_index cfg (post_at w k) (INDEX_NAME cfg) (r_batches r ! k) = Inl e"
  shows "Suc k = length (r_batches r) \<and> r_raised r = Some e \<and> r_tick r = k
           \<and> r_stdout r = []"
  using assms
proof (induction fuel arbitrary: agvs g ticks batches)
  case 0
  then show ?case by simp
next
  case (Suc fuel)
  from Suc.prems(1) show ?case
  proof (cases rule: main_loop_cases)
    case finished
    with Suc.prems(2-) show ?thesis by auto
  next
    case (tick_raised e')
    with Suc.prems(2-) show ?thesis by auto
  next
    case (publish_raised agvs' docs g' e')
    show ?thesis
    proof (cases "k < ticks")
      case True
      with publish_raised Suc.prems(2-) show ?thesis by (auto simp: nth_append)
    next
      case False
      with publish_raised Suc.prems(2,4) have "k = ticks" by simp
      with publish_raised Suc.prems(2,5) show ?thesis by (auto simp: nth_append)
    qed
  next
    case (sleep_raised agvs' docs g')
    show ?thesis
    proof (cases "k < ticks")
      case True
      with sleep_raised Suc.prems(2-) show ?thesis by (auto simp: nth_append)
    next
      case False
      with sleep_raised Suc.prems(2,4) have "k = ticks" by simp
      with sleep_raised Suc.prems(2,5) show ?thesis by (auto simp: nth_append)
    qed
  next
    case (continue agvs' docs g')
    have len: "length (batches @ [docs]) = ticks + 1" using Suc.prems(2) by simp
    have ok: "bulk_index cfg (post_at w j) (INDEX_NAME cfg) ((batches @ [docs]) ! j) = Inr ()"
      if "j < ticks + 1" for j
    proof (cases "j < ticks")
      case True
      with Suc.prems(2,3) show ?thesis by (simp add: nth_append)
    next
      case False
      with that have "j = ticks" by simp
      with continue(3) Suc.prems(2) show ?thesis by (simp add: nth_append)
    qed
    from Suc.IH [OF continue(5) len ok Suc.prems(4,5)] show ?thesis .
  qed
qed

text \<open>
  Two runs of the loop from the same fleet and generator with the same time step agree,
  timestamps apart, on the batches they both produce.
\<close>

lemma main_loop_strip_prefix:
  assumes "main_loop f1 cfg1 w1 agvs g t1 b1 = Some r1"
    and "main_loop f2 cfg2 w2 agvs g t2 b2 = Some r2"
    and "TICK_INTERVAL_SEC cfg1 = TICK_INTERVAL_SEC cfg2"
    and "map (map strip_timestamp) b1 = map (map strip_timestamp) b2"
  shows "prefix (map (map strip_timestamp) (r_batches r1)) (map (map strip_timestamp) (r_batches r2))
       \<or> prefix (map (map strip_timestamp) (r_batches r2)) (map (map strip_timestamp) (r_batches r1))"
  using assms
proof (induction f1 arbitrary: f2 agvs g t1 t2 b1 b2)
  case 0
  then show ?case by simp
next
  case (Suc f1)
  let ?S = "map (map strip_timestamp)"
  from Suc.prems(2) obtain f2' where f2: "f2 = Suc f2'" by (cases f2) simp_all
  have stop1: ?case if "r_batches r1 = b1"
  proof -
    from main_loop_batches_grow [OF Suc.prems(2)] have "prefix (?S b2) (?S (r_batches r2))"
      by (rule map_mono_prefix)
    with that Suc.prems(4) show ?thesis by simp
  qed
  have stop2: ?case if "r_batches r2 = b2"
  proof -
    from main_loop_batches_grow [OF Suc.prems(1)] have "prefix (?S b1) (?S (r_batches r1))"
      by (rule map_mono_prefix)
    with that Suc.prems(4) show ?thesis by simp
  qed
  have last1: ?case
    if "r_batches r1 = b1 @ [d1]" and "prefix (b2 @ [d2]) (r_batches r2)"
      and "map strip_timestamp d1 = map strip_timestamp d2" for d1 d2
  proof -
    from that(2) have "prefix (?S (b2 @ [d2])) (?S (r_batches r2))" by (rule map_mono_prefix)
    with that(1,3) Suc.prems(4) show ?thesis by simp
  qed
  have last2: ?case
    if "r_batches r2 = b2 @ [d2]" and "prefix (b1 @ [d1]) (r_batches r1)"
      and "map strip_timestamp d1 = map strip_timestamp d2" for d1 d2
  proof -
    from that(2) have "prefix (?S (b1 @ [d1])) (?S (r_batches r1))" by (rule map_mono_prefix)
    with that(1,3) Suc.prems(4) show ?thesis by simp
  qed
  from Suc.prems(1) show ?case
  proof (cases rule: main_loop_cases)
    case finished
    then show ?thesis by (intro stop1) simp
  next
    case (tick_raised e)
    then show ?thesis by (intro stop1) simp
  next
    case one: (publish_raised a1 d1 g1 e1)
    from Suc.prems(2) [unfolded f2] show ?thesis
    proof (cases rule: main_loop_cases)
      case finished
      then show ?thesis by (intro stop2) simp
    next
      case (tick_raised e)
      then show ?thesis by (intro stop2) simp
    next
      case (publish_raised a2 d2 g2 e2)
      from fleet_tick_strip [OF one(1), of "now_at w2 t2"] publish_raised(1) Suc.prems(3)
      have "map strip_timestamp d1 = map strip_timestamp d2" by auto
      with one(3) publish_raised(3) show ?thesis by (intro last1 [of d1 d2]) simp_all
    next
      case (sleep_raised a2 d2 g2)
      from fleet_tick_strip [OF one(1), of "now_at w2 t2"] sleep_raised(1) Suc.prems(3)
      have "map strip_timestamp d1 = map strip_timestamp d2" by auto
      with one(3) sleep_raised(3) show ?thesis by (intro last1 [of d1 d2]) simp_all
    next
      case (continue a2 d2 g2)
      from fleet_tick_strip [OF one(1), of "now_at w2 t2"] continue(2) Suc.prems(3)
      have "map strip_timestamp d1 = map strip_timestamp d2" by auto
      with one(3) main_loop_batches_grow [OF continue(5)] show ?thesis
        by (intro last1 [of d1 d2]) simp_all
    qed
  next
    case one: (sleep_raised a1 d1 g1)
    from Suc.prems(2) [unfolded f2] show ?thesis
    proof (cases rule: main_loop_cases)
      case finished
      then show ?thesis by (intro stop2) simp
    next
      case (tick_raised e)
      then show ?thesis by (intro stop2) simp
    next
      case (publish_raised a2 d2 g2 e2)
      from fleet_tick_strip [OF one(1), of "now_at w2 t2"] publish_raised(1) Suc.prems(3)
      have "map strip_timestamp d1 = map strip_timestamp d2" by auto
      with one(3) publish_raised(3) show ?thesis by (intro last1 [of d1 d2]) simp_all
    next
      case (sleep_raised a2 d2 g2)
      from fleet_tick_strip [OF one(1), of "now_at w2 t2"] sleep_raised(1) Suc.prems(3)
      have "map strip_timestamp d1 = map strip_timestamp d2" by auto
      with one(3) sleep_raised(3) show ?thesis by (intro last1 [of d1 d2]) simp_all
    next
      case (continue a2 d2 g2)
      from fleet_tick_strip [OF one(1), of "now_at w2 t2"] continue(2) Suc.prems(3)
      have "map strip_timestamp d1 = map strip_timestamp d2" by auto
      with one(3) main_loop_batches_grow [OF continue(5)] show ?thesis
        by (intro last1 [of d1 d2]) simp_all
    qed
  next
    case one: (continue a1 d1 g1)
    from Suc.prems(2) [unfolded f2] show ?thesis
    proof (cases rule: main_loop_cases)
      case finished
      then show ?thesis by (intro stop2) simp
    next
      case (tick_raised e)
      then show ?thesis by (intro stop2) simp
    next
      case (publish_raised a2 d2 g2 e2)
      from fleet_tick_strip [OF one(2), of "now_at w2 t2"] publish_raised(1) Suc.prems(3)
      have "map strip_timestamp d1 = map strip_timestamp d2" by auto
      with publish_raised(3) main_loop_batches_grow [OF one(5)] show ?thesis
        by (intro last2 [of d2 d1]) simp_all
    next
      case (sleep_raised a2 d2 g2)
      from fleet_tick_strip [OF one(2), of "now_at w2 t2"] sleep_raised(1) Suc.prems(3)
      have "map strip_timestamp d1 = map strip_timestamp d2" by auto
      with sleep_raised(3) main_loop_batches_grow [OF one(5)] show ?thesis
        by (intro last2 [of d2 d1]) simp_all
    next
      case (continue a2 d2 g2)
      from fleet_tick_strip [OF one(2), of "now_at w2 t2"] continue(2) Suc.prems(3)
      have same: "a2 = a1" "g2 = g1" "map strip_timestamp d1 = map strip_timestamp d2"
        by auto
      from same(3) Suc.prems(4) have
        "map (map strip_timestamp) (b1 @ [d1]) = map (map strip_timestamp) (b2 @ [d2])"
        by simp
      from Suc.IH [OF one(5) continue(5) [unfolded same] Suc.prems(3) this]
      show ?thesis .
    qed
  qed
qed

subsection \<open>Concrete runs\<close>

lemma main_loop_continues:
  assumes v: "valid_rng g"
    and go: "time_at w ticks - start_time w < real_of_int (DURATION_SEC cfg)"
    and post: "\<And>req. post_at w ticks req = Response c" and c: "c < 400"
    and dt: "\<not> TICK_INTERVAL_SEC cfg < 0"
  shows "\<exists>agvs' docs g'. valid_rng g'
           \<and> main_loop (Suc fuel) cfg w agvs g ticks batches =
               main_loop fuel cfg w agvs' g' (ticks + 1) (batches @ [docs])"
proof -
  from fleet_tick_ok [OF v] obtain agvs' docs g' where
    f: "fleet_tick (TICK_INTERVAL_SEC cfg) (now_at w ticks) 0 agvs g = Inr (agvs', docs, g')"
    and v': "valid_rng g'" by blast
  have "bulk_index cfg (post_at w ticks) (INDEX_NAME cfg) docs = Inr ()"
  proof (cases "docs = []")
    case True
    then show ?thesis by (simp add: bulk_index_def)
  next
    case False
    from bulk_index_status [OF False post] c show ?thesis by (simp add: raise_for_status_def)
  qed
  with go f dt v' show ?thesis by auto
qed

lemma main_loop_publish_fails:
  assumes v: "valid_rng g"
    and go: "time_at w ticks - start_time w < real_of_int (DURATION_SEC cfg)"
    and post: "\<And>req. post_at w ticks req = Response c" and c: "400 \<le> c" "c < 600"
    and ne: "agvs \<noteq> []"
  shows "\<exists>docs agvs'. bulk_index cfg (post_at w ticks) (INDEX_NAME cfg) docs = Inl (HTTPError c)
           \<and> main_loop (Suc fuel) cfg w agvs g ticks batches =
               Some \<lparr>r_raised = Some (HTTPError c), r_tick = ticks,
                     r_batches = batches @ [docs], r_stdout = [], r_agvs = Some agvs'\<rparr>"
proof -
  from fleet_tick_ok [OF v] obtain agvs' docs g' where
    f: "fleet_tick (TICK_INTERVAL_SEC cfg) (now_at w ticks) 0 agvs g = Inr (agvs', docs, g')"
    by blast
  from fleet_tick_ids [OF f] ne have "docs \<noteq> []" by auto
  from bulk_index_status [OF this post] c
  have b: "bulk_index cfg (post_at w ticks) (INDEX_NAME cfg) docs = Inl (HTTPError c)"
    by (simp add: raise_for_status_def)
  with go f show ?thesis by auto
qed

lemma main_loop_two_ticks:
  assumes v: "valid_rng g" and w: "w = world_ok \<or> w = world_later"
  shows "\<exists>d0 d1 a. main_loop 3 cfg_example w agvs g 0 [] =
           Some \<lparr>r_raised = None, r_tick = 2, r_batches = [d0, d1],
                 r_stdout = [''Simulation finished after 2 ticks''], r_agvs = Some a\<rparr>"
proof -
  have dt: "\<not> TICK_INTERVAL_SEC cfg_example < 0" by (simp add: cfg_example_def)
  have go0: "time_at w 0 - start_time w < real_of_int (DURATION_SEC cfg_example)"
    using w by (auto simp: world_ok_def world_later_def cfg_example_def)
  have go1: "time_at w (0 + 1) - start_time w < real_of_int (DURATION_SEC cfg_example)"
    using w by (auto simp: world_ok_def world_later_def cfg_example_def)
  have stop: "\<not> time_at w (0 + 1 + 1) - start_time w < real_of_int (DURATION_SEC cfg_example)"
    using w by (auto simp: world_ok_def world_later_def cfg_example_def)
  obtain c where post: "\<And>k req. post_at w k req = Response c" and c: "c < 400"
    using w by (auto simp: world_ok_def world_later_def)
  from main_loop_continues [OF v go0 post c dt, of "Suc (Suc 0)" agvs "[]"]
  obtain a1 d0 g1 where v1: "valid_rng g1"
    and s0: "main_loop (Suc (Suc (Suc 0))) cfg_example w agvs g 0 [] =
               main_loop (Suc (Suc 0)) cfg_example w a1 g1 (0 + 1) ([] @ [d0])" by blast
  from main_loop_continues [OF v1 go1 post c dt, of "Suc 0" a1 "[] @ [d0]"]
  obtain a2 d1 g2 where
    s1: "main_loop (Suc (Suc 0)) cfg_example w a1 g1 (0 + 1) ([] @ [d0]) =
               main_loop (Suc 0) cfg_example w a2 g2 (0 + 1 + 1) (([] @ [d0]) @ [d1])" by blast
  have "str_nat (Suc (Suc 0)) = ''2''" by (subst str_nat.simps) (simp add: digit_char_def)
  with stop have "main_loop (Suc 0) cfg_example w a2 g2 (0 + 1 + 1) (([] @ [d0]) @ [d1]) =
      Some \<lparr>r_raised = None, r_tick = 2, r_batches = [d0, d1],
            r_stdout = [''Simulation finished after 2 ticks''], r_agvs = Some a2\<rparr>"
    by simp
  with s0 s1 show ?thesis by (simp add: numeral_3_eq_3)
qed

lemma main_two_ticks:
  assumes v: "valid_rng g" and w: "w = world_ok \<or> w = world_later"
  shows "\<exists>d0 d1 a. main 3 cfg_example w g =
           Some \<lparr>r_raised = None, r_tick = 2, r_batches = [d0, d1],
                 r_stdout = [''Simulation finished after 2 ticks''], r_agvs = Some a\<rparr>"
proof -
  from create_fleet_ok [OF v] obtain agvs g' where
    c: "create_fleet AGV_IDS g = Inr (agvs, g')" and v': "valid_rng g'" by blast
  from main_loop_two_ticks [OF v' w, of agvs] c show ?thesis
    by (simp add: main_def cfg_example_def falsy_def)
qed

lemma main_down:
  assumes v: "valid_rng g"
  shows "\<exists>d0 a. bulk_index cfg_example (post_at world_down 0) (INDEX_NAME cfg_example) d0
             = Inl (HTTPError 500)
           \<and> main 3 cfg_example world_down g =
               Some \<lparr>r_raised = Some (HTTPError 500), r_tick = 0, r_batches = [d0],
                     r_stdout = [], r_agvs = Some a\<rparr>"
proof -
  from create_fleet_ok [OF v] obtain agvs g' where
    c: "create_fleet AGV_IDS g = Inr (agvs, g')" and v': "valid_rng g'" by blast
  from create_fleet_ids [OF c] have ne: "agvs \<noteq> []" by (auto simp: AGV_IDS_eval)
  have go: "time_at world_down 0 - start_time world_down < real_of_int (DURATION_SEC cfg_example)"
    by (simp add: world_down_def world_ok_def cfg_example_def)
  have post: "\<And>req. post_at world_down 0 req = Response 500"
    by (simp add: world_down_def)
  from main_loop_publish_fails [OF v' go post _ _ ne, of "Suc (Suc 0)" "[]"] c
  show ?thesis by (simp add: main_def cfg_example_def falsy_def numeral_3_eq_3)
qed

lemma prefix_same_length:
  assumes "prefix xs ys \<or> prefix ys xs" and "length xs = length ys"
  shows "xs = ys"
  using assms by (auto simp: prefix_def)

text \<open>
  Fuel only bounds the number of iterations: once the clock has passed the duration at
  the \<open>n\<close>-th test from the current one, \<open>n + 1\<close> units are enough, and more fuel
  never changes the result.
\<close>

lemma main_loop_enough_fuel:
  assumes "\<not> time_at w (ticks + n) - start_time w < real_of_int (DURATION_SEC cfg)"
  shows "\<exists>r. main_loop (Suc n) cfg w agvs g ticks batches = Some r"
  using assms
proof (induction n arbitrary: agvs g ticks batches)
  case 0
  then show ?case by simp
next
  case (Suc n)
  from Suc.prems have
    "\<not> time_at w ((ticks + 1) + n) - start_time w < real_of_int (DURATION_SEC cfg)"
    by simp
  from Suc.IH [OF this] have
    "\<exists>r. main_loop (Suc n) cfg w agvs' g' (ticks + 1) bs = Some r" for agvs' g' bs .
  then show ?case
    by (subst main_loop.simps) (simp split: sum.splits prod.splits)
qed

lemma main_loop_more_fuel:
  assumes "main_loop fuel cfg w agvs g ticks batches = Some r"
  shows "main_loop (Suc fuel) cfg w agvs g ticks batches = Some r"
  using assms
proof (induction fuel arbitrary: agvs g ticks batches)
  case 0
  then show ?case by simp
next
  case (Suc fuel)
  from Suc.prems show ?case
  proof (cases rule: main_loop_cases)
    case finished
    then show ?thesis by simp
  next
    case (tick_raised e)
    then show ?thesis by simp
  next
    case (publish_raised agvs' docs g' e)
    then show ?thesis by simp
  next
    case (sleep_raised agvs' docs g')
    then show ?thesis by simp
  next
    case (continue agvs' docs g')
    from Suc.IH [OF continue(5)] continue(1-4) show ?thesis
      by (subst main_loop.simps) simp
  qed
qed

text \<open>The state that a fleet tick leaves does not depend on the clock.\<close>

lemma fleet_tick_state:
  assumes "fleet_tick dt now i agvs g = Inr (agvs', docs, g')"
  shows "\<exists>docs'. fleet_tick dt now' i agvs g = Inr (agvs', docs', g')"
  using fleet_tick_strip [OF assms, of now'] by blast

lemma fleet_after_step:
  assumes "fleet_after n dt fleet g0 = Inr (agvs, g)"
    and "fleet_tick dt now 0 agvs g = Inr (agvs', docs, g')"
  shows "fleet_after (Suc n) dt fleet g0 = Inr (agvs', g')"
proof -
  from fleet_tick_state [OF assms(2), of "\<lambda>i. []"] obtain docs' where
    "fleet_tick dt (\<lambda>i. []) 0 agvs g = Inr (agvs', docs', g')" by blast
  with assms(1) show ?thesis by simp
qed

lemma main_loop_publish_failure_state:
  assumes "main_loop fuel cfg w agvs g ticks batches = Some r"
    and "length batches = ticks"
    and "\<And>k. k < ticks \<Longrightarrow>
           bulk_index cfg (post_at w k) (INDEX_NAME cfg) (batches ! k) = Inr ()"
    and "k < length (r_batches r)"
    and "bulk_index cfg (post_at w k) (INDEX_NAME cfg) (r_batches r ! k) = Inl e"
    and "fleet_after ticks (TICK_INTERVAL_SEC cfg) fleet g0 = Inr (agvs, g)"
  shows "\<exists>fleet' g'. fleet_after (Suc k) (TICK_INTERVAL_SEC cfg) fleet g0 = Inr (fleet', g')
           \<and> r_agvs r = Some fleet'"
  using assms
proof (induction fuel arbitrary: agvs g ticks batches)
  case 0
  then show ?case by simp
next
  case (Suc fuel)
  from Suc.prems(1) show ?case
  proof (cases rule: main_loop_cases)
    case finished
    with Suc.prems(2-5) show ?thesis by auto
  next
    case (tick_raised e' agvs')
    with Suc.prems(2-5) show ?thesis by auto
  next
    case (publish_raised agvs' docs g' e')
    show ?thesis
    proof (cases "k < ticks")
      case True
      with publish_raised Suc.prems(2-5) show ?thesis by (auto simp: nth_append)
    next
      case False
      with publish_raised Suc.prems(2,4) have "k = ticks" by simp
      with fleet_after_step [OF Suc.prems(6) publish_raised(1)] publish_raised(3)
      show ?thesis by simp
    qed
  next
    case (sleep_raised agvs' docs g')
    show ?thesis
    proof (cases "k < ticks")
      case True
      with sleep_raised Suc.prems(2-5) show ?thesis by (auto simp: nth_append)
    next
      case False
      with sleep_raised Suc.prems(2,4) have "k = ticks" by simp
      with sleep_raised Suc.prems(2,5) show ?thesis by (auto simp: nth_append)
    qed
  next
    case (continue agvs' docs g')
    have len: "length (batches @ [docs]) = ticks + 1" using Suc.prems(2) by simp
    have ok: "bulk_index cfg (post_at w j) (INDEX_NAME cfg) ((batches @ [docs]) ! j) = Inr ()"
      if "j < ticks + 1" for j
    proof (cases "j < ticks")
      case True
      with Suc.prems(2,3) show ?thesis by (simp add: nth_append)
    next
      case False
      with that have "j = ticks" by simp
      with continue(3) Suc.prems(2) show ?thesis by (simp add: nth_append)
    qed
    from fleet_after_step [OF Suc.prems(6) continue(2)] have
      st: "fleet_after (ticks + 1) (TICK_INTERVAL_SEC cfg) fleet g0 = Inr (agvs', g')" by simp
    from Suc.IH [OF continue(5) len ok Suc.prems(4,5) st] show ?thesis .
  qed
qed

lemma recharge_fires_iff:
  "recharge_fires dt s g =
     (soc_pct s - fst (uniform 0.01 0.05 g) * dt < 30 \<and> g (Suc 0) < 1 / 100)"
  by (simp add: recharge_fires_def uniform_def random_random_def split: prod.splits)

lemma AGVState_init_const:
  assumes "AGVState_init aid (rng_pad [] c) = Inr (s0, g0)"
  shows "g0 = rng_pad [] c \<and> soc_pct s0 = 60 + 40 * c"
  using assms
  by (auto simp: AGVState_init_def choice_def randbelow_def uniform_def new_job_id_def
        randint_def random_random_const split: if_splits sum.splits prod.splits)

lemma tick_soc_without_recharge:
  assumes v: "valid_rng g" and dt: "0 \<le> dt" and m: "tick_motion dt s g = Inr (s2, g2)"
    and n: "\<not> recharge_fires dt s2 g2"
  shows "\<exists>s' g'. tick dt s g = Inr (s', g') \<and> soc_pct s' \<le> soc_pct s"
proof -
  obtain s' g' where c: "tick_battery dt s2 g2 = (s', g')" by (cases "tick_battery dt s2 g2")
  with m have t: "tick dt s g = Inr (s', g')" by (simp add: tick_def)
  from tick_motion_valid [OF v m] have v2: "valid_rng g2" .
  have "uniform 0.01 0.05 g2 = (fst (uniform 0.01 0.05 g2), snd (uniform 0.01 0.05 g2))"
    by simp
  from uniform_range [OF v2 _ this] have "0 \<le> fst (uniform 0.01 0.05 g2)" by simp
  then have d: "0 \<le> fst (uniform 0.01 0.05 g2) * dt" using dt by simp
  have "soc_pct s' = soc_pct s - fst (uniform 0.01 0.05 g2) * dt"
    using tick_battery_soc [of dt s2 g2] c n tick_motion_soc [OF m]
    by (auto simp: recharge_fires_iff Let_def)
  with d t show ?thesis by simp
qed

section \<open>The claims\<close>

text \<open>
  C1, as stated, fails: \<^verbatim>\<open>main\<close> calls \<^verbatim>\<open>bulk_index\<close> outside of any
  \<^verbatim>\<open>try\<close>, so what \<^verbatim>\<open>raise_for_status\<close> raises leaves \<^verbatim>\<open>main\<close>. With a remote
  end that answers 500, the run ends with \<open>HTTPError 500\<close> after the first batch, the
  variable \<^verbatim>\<open>tick\<close> still 0 and nothing printed, although the clock would have let the
  loop go on (one second elapsed of two); with a remote end that accepts the requests the
  same run makes two ticks.
\<close>

theorem publish_failure_terminates_run:
  "time_at world_down 1 - start_time world_down < real_of_int (DURATION_SEC cfg_example)
   \<and> map_option r_raised (main 3 cfg_example world_down (rng_pad [] (1 / 2)))
       = Some (Some (HTTPError 500))
   \<and> map_option r_tick (main 3 cfg_example world_down (rng_pad [] (1 / 2))) = Some 0
   \<and> map_option r_stdout (main 3 cfg_example world_down (rng_pad [] (1 / 2))) = Some []
   \<and> map_option r_tick (main 3 cfg_example world_ok (rng_pad [] (1 / 2))) = Some 2"
proof -
  have v: "valid_rng (rng_pad [] (1 / 2))" by (rule rng_pad_valid) simp_all
  have "time_at world_down 1 - start_time world_down < real_of_int (DURATION_SEC cfg_example)"
    by (simp add: world_down_def world_ok_def cfg_example_def)
  moreover from main_down [OF v] obtain d0 a where
    "main 3 cfg_example world_down (rng_pad [] (1 / 2)) =
       Some \<lparr>r_raised = Some (HTTPError 500), r_tick = 0, r_batches = [d0], r_stdout = [],
             r_agvs = Some a\<rparr>"
    by blast
  moreover from main_two_ticks [OF v, of world_ok] obtain d0 d1 a where
    "main 3 cfg_example world_ok (rng_pad [] (1 / 2)) =
       Some \<lparr>r_raised = None, r_tick = 2, r_batches = [d0, d1],
             r_stdout = [''Simulation finished after 2 ticks''], r_agvs = Some a\<rparr>" by blast
  ultimately show ?thesis by simp
qed

text \<open>
  C1 (publish failure), amended. A transport-level failure of the publish step does not
  modify any vehicle, but it ends the run. If, in a run of \<^verbatim>\<open>main\<close>, publishing the
  batch of tick \<open>k\<close> raises \<open>e\<close> (a connection error, or an HTTP error for a status from
  400 to 599), then that batch is the last one handed to \<^verbatim>\<open>bulk_index\<close>, the run ended
  with the exception \<open>e\<close>, the variable \<^verbatim>\<open>tick\<close> is still \<open>k\<close> and the final
  message was not printed: no later tick was executed. The fleet in memory at that moment
  is the fleet as created and advanced \<open>k + 1\<close> times, that is, exactly as the last
  advance left it.
\<close>

theorem publish_failure_is_final:
  assumes "main fuel cfg w g = Some r" and "k < length (r_batches r)"
    and "bulk_index cfg (post_at w k) (INDEX_NAME cfg) (r_batches r ! k) = Inl e"
  shows "Suc k = length (r_batches r) \<and> r_raised r = Some e \<and> r_tick r = k
           \<and> r_stdout r = []
           \<and> (e = ConnectionError \<or> (\<exists>c. e = HTTPError c \<and> 400 \<le> c \<and> c < 600))
           \<and> (\<exists>fleet g0 fleet' g'. create_fleet AGV_IDS g = Inr (fleet, g0)
                 \<and> fleet_after (Suc k) (TICK_INTERVAL_SEC cfg) fleet g0 = Inr (fleet', g')
                 \<and> r_agvs r = Some fleet')"
proof -
  have "\<exists>fleet g0. create_fleet AGV_IDS g = Inr (fleet, g0)
          \<and> main_loop fuel cfg w fleet g0 0 [] = Some r"
  proof (cases "falsy (ES_URL cfg) \<or> falsy (ES_API_KEY cfg)")
    case True
    with assms(1,2) show ?thesis by (auto simp: main_def)
  next
    case False
    with assms(1,2) show ?thesis by (auto simp: main_def split: sum.splits)
  qed
  then obtain fleet g0 where c: "create_fleet AGV_IDS g = Inr (fleet, g0)"
    and m: "main_loop fuel cfg w fleet g0 0 [] = Some r" by blast
  have a: "Suc k = length (r_batches r) \<and> r_raised r = Some e \<and> r_tick r = k \<and> r_stdout r = []"
    by (rule main_loop_publish_failure [OF m _ _ assms(2,3)]) simp_all
  have "\<exists>fleet' g'. fleet_after (Suc k) (TICK_INTERVAL_SEC cfg) fleet g0 = Inr (fleet', g')
           \<and> r_agvs r = Some fleet'"
    by (rule main_loop_publish_failure_state [OF m _ _ assms(2,3)]) simp_all
  with a c bulk_index_Inl [OF assms(3)] show ?thesis by blast
qed

theorem publish_failure_is_final_witness:
  "main 3 cfg_example world_down (rng_pad [] (1 / 2))
     = Some (the (main 3 cfg_example world_down (rng_pad [] (1 / 2))))
   \<and> 0 < length (r_batches (the (main 3 cfg_example world_down (rng_pad [] (1 / 2)))))
   \<and> bulk_index cfg_example (post_at world_down 0) (INDEX_NAME cfg_example)
        (r_batches (the (main 3 cfg_example world_down (rng_pad [] (1 / 2)))) ! 0)
       = Inl (HTTPError 500)
   \<and> Suc 0 = length (r_batches (the (main 3 cfg_example world_down (rng_pad [] (1 / 2)))))
   \<and> r_raised (the (main 3 cfg_example world_down (rng_pad [] (1 / 2)))) = Some (HTTPError 500)
   \<and> r_tick (the (main 3 cfg_example world_down (rng_pad [] (1 / 2)))) = 0
   \<and> r_stdout (the (main 3 cfg_example world_down (rng_pad [] (1 / 2)))) = []
   \<and> (\<exists>fleet g0 fleet' g'. create_fleet AGV_IDS (rng_pad [] (1 / 2)) = Inr (fleet, g0)
         \<and> fleet_after (Suc 0) (TICK_INTERVAL_SEC cfg_example) fleet g0 = Inr (fleet', g')
         \<and> r_agvs (the (main 3 cfg_example world_down (rng_pad [] (1 / 2)))) = Some fleet')"
proof -
  let ?r = "the (main 3 cfg_example world_down (rng_pad [] (1 / 2)))"
  have v: "valid_rng (rng_pad [] (1 / 2))" by (rule rng_pad_valid) simp_all
  from main_down [OF v] obtain d0 a where
    b: "bulk_index cfg_example (post_at world_down 0) (INDEX_NAME cfg_example) d0
          = Inl (HTTPError 500)"
    and m: "main 3 cfg_example world_down (rng_pad [] (1 / 2)) =
       Some \<lparr>r_raised = Some (HTTPError 500), r_tick = 0, r_batches = [d0], r_stdout = [],
             r_agvs = Some a\<rparr>"
    by blast
  from m have h1: "main 3 cfg_example world_down (rng_pad [] (1 / 2)) = Some ?r" by simp
  from m have h2: "0 < length (r_batches ?r)" by simp
  from m b have h3: "bulk_index cfg_example (post_at world_down 0) (INDEX_NAME cfg_example)
        (r_batches ?r ! 0) = Inl (HTTPError 500)" by simp
  from h1 h2 h3 publish_failure_is_final [OF h1 h2 h3] show ?thesis by blast
qed

text \<open>
  C2, as stated, fails: the new job id is drawn without regard to the old one. The vehicle
  \<open>agv_example\<close> at position 999 with job \<open>JOB-550000\<close>, ticked for ten seconds
  under the generator that always draws \<open>1 / 2\<close>, passes the end of its lane, is reset
  to position 0, and draws \<open>100000 + \<lfloor>900000 / 2\<rfloor> = 550000\<close>: the same job id.
\<close>

theorem job_id_collision:
  "position_m agv_example < 1000
   \<and> job_id agv_example = ''JOB-550000''
   \<and> 1000 \<le> position_m (tick_move 10 (fst (tick_speed agv_example (rng_pad [] (1 / 2)))))
   \<and> tick 10 agv_example (rng_pad [] (1 / 2)) =
       Inr (\<lparr>agv_id = ''AGV-01'', yard_block = ''YB10'', lane_id = ''L41'', position_m = 0,
             speed_kph = 10, soc_pct = 497 / 10, job_id = ''JOB-550000'',
             load_status = ''EMPTY''\<rparr>, rng_pad [] (1 / 2))"
  by (simp add: agv_example_def tick_def tick_motion_def tick_speed_def tick_move_def
        tick_lane_end_def tick_battery_def uniform_def random_random_pad random_random_const new_job_id_def
        randint_def randbelow_def str_550000 Let_def)

text \<open>
  C2 (lane completion), amended. When the movement of a tick takes the position to 1000
  or beyond, the tick returns with position 0 and with the job id \<open>JOB-n\<close>, where
  \<open>n\<close> is the integer between 100000 and 999999 that the generator draws right after
  the speed draw. The new job id differs from the old one exactly when \<open>n\<close> is not the
  number of the old job.
\<close>

theorem lane_end_resets_position_and_job:
  assumes v: "valid_rng g"
    and far: "1000 \<le> position_m (tick_move dt (fst (tick_speed s g)))"
  shows "\<exists>s' g' n g1. tick dt s g = Inr (s', g') \<and> position_m s' = 0
           \<and> randint 100000 999999 (snd (tick_speed s g)) = Inr (n, g1)
           \<and> 100000 \<le> n \<and> n \<le> 999999
           \<and> job_id s' = ''JOB-'' @ str_int n
           \<and> (\<forall>m. job_id s = ''JOB-'' @ str_int m \<longrightarrow> (job_id s' \<noteq> job_id s) = (n \<noteq> m))"
proof -
  from tick_ok [OF v] obtain s' g' where t: "tick dt s g = Inr (s', g')" by blast
  then obtain s1 g1 s2 g2 where a: "tick_speed s g = (s1, g1)"
    and b: "tick_lane_end (tick_move dt s1) g1 = Inr (s2, g2)"
    and c: "tick_battery dt s2 g2 = (s', g')" by (rule tick_blocks)
  from far a have far1: "1000 \<le> position_m (tick_move dt s1)" by simp
  from tick_speed_valid [OF v a] have v1: "valid_rng g1" .
  from new_job_id_ok [OF v1] obtain n ga gb where
    r: "randint 100000 999999 g1 = Inr (n, gb)"
    and j: "new_job_id g1 = Inr (''JOB-'' @ str_int n, ga)"
    and n: "100000 \<le> n" "n \<le> 999999" by blast
  from tick_lane_end_reset [OF far1 b] j have
    s2: "job_id s2 = ''JOB-'' @ str_int n" "position_m s2 = 0" by auto
  with tick_battery_frame [OF c] have
    s': "job_id s' = ''JOB-'' @ str_int n" "position_m s' = 0" by simp_all
  have "(job_id s' \<noteq> job_id s) = (n \<noteq> m)" if "job_id s = ''JOB-'' @ str_int m" for m
    using that s'(1) str_int_inj [of n m] by auto
  with t s' r n a show ?thesis by auto
qed

theorem lane_end_resets_position_and_job_witness:
  "valid_rng (rng_pad [] (1 / 2))
   \<and> 1000 \<le> position_m (tick_move 10 (fst (tick_speed agv_example (rng_pad [] (1 / 2)))))
   \<and> (\<exists>s' g' n g1. tick 10 agv_example (rng_pad [] (1 / 2)) = Inr (s', g')
         \<and> position_m s' = 0
         \<and> randint 100000 999999 (snd (tick_speed agv_example (rng_pad [] (1 / 2))))
             = Inr (n, g1)
         \<and> 100000 \<le> n \<and> n \<le> 999999
         \<and> job_id s' = ''JOB-'' @ str_int n
         \<and> (\<forall>m. job_id agv_example = ''JOB-'' @ str_int m
                \<longrightarrow> (job_id s' \<noteq> job_id agv_example) = (n \<noteq> m)))"
proof -
  have v: "valid_rng (rng_pad [] (1 / 2))" by (rule rng_pad_valid) simp_all
  have f: "1000 \<le> position_m (tick_move 10 (fst (tick_speed agv_example (rng_pad [] (1 / 2)))))"
    by (simp add: tick_move_def tick_speed_def uniform_def random_random_def agv_example_def)
  from v f lane_end_resets_position_and_job [OF v f] show ?thesis by blast
qed

text \<open>
  C3, as stated, fails in its second half: line 61 tests the charge after the drain of the
  same tick. With a time step of 500 seconds and a drain draw of \<open>9 / 10\<close> the vehicle
  \<open>agv_example\<close>, which enters the tick with charge 50, is drained to 27, the recharge
  draw 0 fires, and the tick ends with charge 85.
\<close>

theorem recharge_from_50:
  "soc_pct agv_example = 50
   \<and> tick 500 agv_example (rng_pad [1 / 2, 1 / 2, 1 / 2, 1 / 2, 9 / 10, 0] (1 / 2)) =
       Inr (\<lparr>agv_id = ''AGV-01'', yard_block = ''YB10'', lane_id = ''L41'', position_m = 0,
             speed_kph = 10, soc_pct = 85, job_id = ''JOB-550000'',
             load_status = ''EMPTY''\<rparr>, rng_pad [] (1 / 2))"
  by (simp add: agv_example_def tick_def tick_motion_def tick_speed_def tick_move_def
        tick_lane_end_def tick_battery_def uniform_def random_random_pad random_random_const new_job_id_def
        randint_def randbelow_def str_550000 Let_def)

text \<open>
  C3 (recharge threshold), amended. Let \<open>s2\<close> and \<open>g2\<close> be the vehicle and the
  generator when the tick reaches the battery block. A vehicle that enters a tick with
  charge 25 and whose recharge fires (line 63 is reached and its draw is below 0.01) ends
  the tick with a charge between 70 and 100, whatever the time step; for \<open>dt \<ge> 0\<close> line
  63 is always reached from charge 25, so the recharge fires as soon as the second draw of
  the block is below 0.01. A vehicle that enters a tick with charge 50 and \<open>dt \<le> 400\<close>
  never has its recharge fire and ends the tick with 50 minus the drain, whatever the
  draws. In general a tick whose recharge does not fire ends with the charge minus the
  drain: the charge is reset only when the charge after the drain is below 30.
\<close>

theorem recharge_threshold:
  assumes v: "valid_rng g" and m: "tick_motion dt s g = Inr (s2, g2)"
  shows "\<exists>s' g'. tick dt s g = Inr (s', g')
           \<and> (soc_pct s = 25 \<and> recharge_fires dt s2 g2
                \<longrightarrow> 70 \<le> soc_pct s' \<and> soc_pct s' \<le> 100)
           \<and> (soc_pct s = 25 \<and> 0 \<le> dt \<and> g2 (Suc 0) < 1 / 100
                \<longrightarrow> recharge_fires dt s2 g2)
           \<and> (soc_pct s = 50 \<and> dt \<le> 400
                \<longrightarrow> \<not> recharge_fires dt s2 g2
                  \<and> soc_pct s' = 50 - fst (uniform 0.01 0.05 g2) * dt)
           \<and> (\<not> recharge_fires dt s2 g2
                \<longrightarrow> soc_pct s' = soc_pct s - fst (uniform 0.01 0.05 g2) * dt)"
proof -
  obtain s' g' where c: "tick_battery dt s2 g2 = (s', g')" by (cases "tick_battery dt s2 g2")
  with m have t: "tick dt s g = Inr (s', g')" by (simp add: tick_def)
  from tick_motion_valid [OF v m] have v2: "valid_rng g2" .
  from tick_motion_soc [OF m] have e: "soc_pct s2 = soc_pct s" .
  define drain where "drain = fst (uniform 0.01 0.05 g2)"
  have "uniform 0.01 0.05 g2 = (drain, snd (uniform 0.01 0.05 g2))" by (simp add: drain_def)
  from uniform_range [OF v2 _ this] have dr: "1 / 100 \<le> drain" "drain \<le> 5 / 100" by simp_all
  have fires: "recharge_fires dt s2 g2 = (soc_pct s - drain * dt < 30 \<and> g2 (Suc 0) < 1 / 100)"
    by (simp add: recharge_fires_iff e drain_def)
  have soc: "soc_pct s' =
      (if recharge_fires dt s2 g2 then 70 + 30 * g2 (Suc (Suc 0)) else soc_pct s - drain * dt)"
    using tick_battery_soc [of dt s2 g2] c e by (simp add: fires drain_def Let_def)
  from v2 have u: "0 \<le> g2 (Suc (Suc 0))" "g2 (Suc (Suc 0)) < 1" by (simp_all add: valid_rng_def)
  have one: "70 \<le> soc_pct s' \<and> soc_pct s' \<le> 100" if "recharge_fires dt s2 g2"
    using soc that u by simp
  have reach: "recharge_fires dt s2 g2" if "soc_pct s = 25" "0 \<le> dt" "g2 (Suc 0) < 1 / 100"
  proof -
    have "0 \<le> drain * dt" using dr that(2) by simp
    with that(1,3) show ?thesis by (simp add: fires)
  qed
  have two: "\<not> recharge_fires dt s2 g2 \<and> soc_pct s' = 50 - drain * dt"
    if "soc_pct s = 50" "dt \<le> 400"
  proof -
    have "drain * dt \<le> 20"
    proof (cases "0 \<le> dt")
      case True
      have "drain * dt \<le> (5 / 100) * 400"
        using dr that(2) True by (intro mult_mono) simp_all
      then show ?thesis by simp
    next
      case False
      then have "drain * dt \<le> 0" using dr by (simp add: mult_le_0_iff)
      then show ?thesis by simp
    qed
    with that(1) have "\<not> recharge_fires dt s2 g2" by (simp add: fires)
    with soc that(1) show ?thesis by simp
  qed
  have three: "soc_pct s' = soc_pct s - drain * dt" if "\<not> recharge_fires dt s2 g2"
    using soc that by simp
  from t one reach two three show ?thesis unfolding drain_def by blast
qed

theorem recharge_threshold_witness:
  "(valid_rng (rng_pad [1 / 2, 1 / 2, 0] (1 / 2))
    \<and> tick_motion (- 1) agv_low (rng_pad [1 / 2, 1 / 2, 0] (1 / 2)) =
        Inr (\<lparr>agv_id = ''AGV-01'', yard_block = ''YB10'', lane_id = ''L41'',
              position_m = 8966 / 9, speed_kph = 10, soc_pct = 25,
              job_id = ''JOB-550000'', load_status = ''EMPTY''\<rparr>, rng_pad [1 / 2, 0] (1 / 2))
    \<and> soc_pct agv_low = 25
    \<and> recharge_fires (- 1)
         \<lparr>agv_id = ''AGV-01'', yard_block = ''YB10'', lane_id = ''L41'',
              position_m = 8966 / 9, speed_kph = 10, soc_pct = 25,
              job_id = ''JOB-550000'', load_status = ''EMPTY''\<rparr> (rng_pad [1 / 2, 0] (1 / 2))
    \<and> (\<exists>s' g'. tick (- 1) agv_low (rng_pad [1 / 2, 1 / 2, 0] (1 / 2)) = Inr (s', g')
          \<and> 70 \<le> soc_pct s' \<and> soc_pct s' \<le> 100))
   \<and> (tick_motion (1 / 10) agv_low (rng_pad [1 / 2, 1 / 2, 0] (1 / 2)) =
        Inr (\<lparr>agv_id = ''AGV-01'', yard_block = ''YB10'', lane_id = ''L41'',
              position_m = 17987 / 18, speed_kph = 10, soc_pct = 25,
              job_id = ''JOB-550000'', load_status = ''EMPTY''\<rparr>, rng_pad [1 / 2, 0] (1 / 2))
    \<and> (0::real) \<le> 1 / 10 \<and> rng_pad [1 / 2, 0] (1 / 2) (Suc 0) < 1 / 100
    \<and> recharge_fires (1 / 10)
         \<lparr>agv_id = ''AGV-01'', yard_block = ''YB10'', lane_id = ''L41'',
              position_m = 17987 / 18, speed_kph = 10, soc_pct = 25,
              job_id = ''JOB-550000'', load_status = ''EMPTY''\<rparr> (rng_pad [1 / 2, 0] (1 / 2)))
   \<and> (valid_rng (rng_pad [] (1 / 2))
    \<and> tick_motion (1 / 10) agv_example (rng_pad [] (1 / 2)) =
        Inr (\<lparr>agv_id = ''AGV-01'', yard_block = ''YB10'', lane_id = ''L41'',
              position_m = 17987 / 18, speed_kph = 10, soc_pct = 50,
              job_id = ''JOB-550000'', load_status = ''EMPTY''\<rparr>, rng_pad [] (1 / 2))
    \<and> soc_pct agv_example = 50 \<and> (1 / 10 :: real) \<le> 400
    \<and> \<not> recharge_fires (1 / 10)
         \<lparr>agv_id = ''AGV-01'', yard_block = ''YB10'', lane_id = ''L41'',
              position_m = 17987 / 18, speed_kph = 10, soc_pct = 50,
              job_id = ''JOB-550000'', load_status = ''EMPTY''\<rparr> (rng_pad [] (1 / 2))
    \<and> (\<exists>s' g'. tick (1 / 10) agv_example (rng_pad [] (1 / 2)) = Inr (s', g')
          \<and> soc_pct s' = 50 - fst (uniform 0.01 0.05 (rng_pad [] (1 / 2))) * (1 / 10)))"
proof -
  let ?a = "\<lparr>agv_id = ''AGV-01'', yard_block = ''YB10'', lane_id = ''L41'',
              position_m = 8966 / 9, speed_kph = 10, soc_pct = 25,
              job_id = ''JOB-550000'', load_status = ''EMPTY''\<rparr>"
  let ?b = "\<lparr>agv_id = ''AGV-01'', yard_block = ''YB10'', lane_id = ''L41'',
              position_m = 17987 / 18, speed_kph = 10, soc_pct = 25,
              job_id = ''JOB-550000'', load_status = ''EMPTY''\<rparr>"
  let ?c = "\<lparr>agv_id = ''AGV-01'', yard_block = ''YB10'', lane_id = ''L41'',
              position_m = 17987 / 18, speed_kph = 10, soc_pct = 50,
              job_id = ''JOB-550000'', load_status = ''EMPTY''\<rparr>"
  have v1: "valid_rng (rng_pad [1 / 2, 1 / 2, 0] (1 / 2))" by (rule rng_pad_valid) simp_all
  have m1: "tick_motion (- 1) agv_low (rng_pad [1 / 2, 1 / 2, 0] (1 / 2)) =
        Inr (?a, rng_pad [1 / 2, 0] (1 / 2))"
    by (simp add: agv_low_def agv_example_def tick_motion_def tick_speed_def tick_move_def
          tick_lane_end_def uniform_def random_random_pad)
  have h1: "soc_pct agv_low = 25" by (simp add: agv_low_def)
  have f1: "recharge_fires (- 1) ?a (rng_pad [1 / 2, 0] (1 / 2))"
    by (simp add: recharge_fires_def uniform_def random_random_pad)
  have m3: "tick_motion (1 / 10) agv_low (rng_pad [1 / 2, 1 / 2, 0] (1 / 2)) =
        Inr (?b, rng_pad [1 / 2, 0] (1 / 2))"
    by (simp add: agv_low_def agv_example_def tick_motion_def tick_speed_def tick_move_def
          tick_lane_end_def uniform_def random_random_pad)
  have h3: "(0::real) \<le> 1 / 10" "rng_pad [1 / 2, 0] (1 / 2) (Suc 0) < 1 / 100" by simp_all
  have v2: "valid_rng (rng_pad [] (1 / 2))" by (rule rng_pad_valid) simp_all
  have m2: "tick_motion (1 / 10) agv_example (rng_pad [] (1 / 2)) = Inr (?c, rng_pad [] (1 / 2))"
    by (simp add: agv_example_def tick_motion_def tick_speed_def tick_move_def
          tick_lane_end_def uniform_def random_random_const)
  have h2: "soc_pct agv_example = 50" "(1 / 10 :: real) \<le> 400"
    by (simp_all add: agv_example_def)
  from recharge_threshold [OF v1 m1] h1 f1 have c1:
    "\<exists>s' g'. tick (- 1) agv_low (rng_pad [1 / 2, 1 / 2, 0] (1 / 2)) = Inr (s', g')
          \<and> 70 \<le> soc_pct s' \<and> soc_pct s' \<le> 100" by blast
  from recharge_threshold [OF v1 m3] h1 h3 have c3:
    "recharge_fires (1 / 10) ?b (rng_pad [1 / 2, 0] (1 / 2))" by blast
  from recharge_threshold [OF v2 m2] h2 have c2:
    "\<not> recharge_fires (1 / 10) ?c (rng_pad [] (1 / 2))
     \<and> (\<exists>s' g'. tick (1 / 10) agv_example (rng_pad [] (1 / 2)) = Inr (s', g')
          \<and> soc_pct s' = 50 - fst (uniform 0.01 0.05 (rng_pad [] (1 / 2))) * (1 / 10))"
    by blast
  from v1 m1 h1 f1 c1 m3 h3 c3 v2 m2 h2 c2 show ?thesis by blast
qed

text \<open>
  C4 (speed bound). A vehicle is created with a speed between \<open>MIN_SPEED = 4\<close> and
  \<open>MAX_SPEED = 18\<close>, and after every sequence of ticks, whatever the time steps and
  the draws of the generator, every tick returns and leaves the speed between 4 and 18.
\<close>

theorem speed_bound_invariant:
  assumes "valid_rng g"
  shows "\<exists>s0 g0. AGVState_init aid g = Inr (s0, g0)
           \<and> 4 \<le> speed_kph s0 \<and> speed_kph s0 \<le> 18
           \<and> (\<forall>dts. \<exists>s g'. run_ticks dts s0 g0 = Inr (s, g')
                  \<and> 4 \<le> speed_kph s \<and> speed_kph s \<le> 18)"
proof -
  from AGVState_init_ok [OF assms] obtain s0 g0 where
    i: "AGVState_init aid g = Inr (s0, g0)" and v0: "valid_rng g0"
    and sp: "8 \<le> speed_kph s0" "speed_kph s0 \<le> 14" by blast
  have "\<exists>s g'. run_ticks dts s0 g0 = Inr (s, g') \<and> 4 \<le> speed_kph s \<and> speed_kph s \<le> 18"
    for dts
  proof -
    have "\<exists>s g'. run_ticks dts s0 g0 = Inr (s, g')
            \<and> (4 \<le> speed_kph s \<and> speed_kph s \<le> 18) \<and> valid_rng g'"
    proof (rule run_ticks_invariant [where Q = "\<lambda>dt. True"])
      show "4 \<le> speed_kph s' \<and> speed_kph s' \<le> 18" if "tick dt s g = Inr (s', g')"
        for dt s g s' g' using that by (rule tick_speed_kph)
      show "valid_rng g0" by (rule v0)
      show "4 \<le> speed_kph s0 \<and> speed_kph s0 \<le> 18" using sp by simp
      show "list_all (\<lambda>dt. True) dts" by (simp add: list_all_iff)
    qed
    then show ?thesis by blast
  qed
  with i sp show ?thesis by auto
qed

theorem speed_bound_invariant_witness:
  "valid_rng (rng_pad [] (1 / 2))
     \<and> (\<exists>s0 g0. AGVState_init ''AGV-01'' (rng_pad [] (1 / 2)) = Inr (s0, g0)
           \<and> 4 \<le> speed_kph s0 \<and> speed_kph s0 \<le> 18
           \<and> (\<forall>dts. \<exists>s g'. run_ticks dts s0 g0 = Inr (s, g')
                  \<and> 4 \<le> speed_kph s \<and> speed_kph s \<le> 18))"
proof -
  have v: "valid_rng (rng_pad [] (1 / 2))" by (rule rng_pad_valid) simp_all
  from v speed_bound_invariant [OF v, of "''AGV-01''"] show ?thesis by blast
qed

text \<open>
  C5 (position bound). A tick with a time step \<open>dt \<ge> 0\<close> on a vehicle whose position
  is in \<open>[0, 1000)\<close> returns a vehicle whose position is again in \<open>[0, 1000)\<close>,
  whatever the generator draws.
\<close>

theorem position_bound_invariant:
  assumes "valid_rng g" and "0 \<le> position_m s" and "position_m s < 1000" and "0 \<le> dt"
  shows "\<exists>s' g'. tick dt s g = Inr (s', g') \<and> 0 \<le> position_m s' \<and> position_m s' < 1000"
proof -
  from tick_ok [OF assms(1)] obtain s' g' where t: "tick dt s g = Inr (s', g')" by blast
  obtain s1 g1 where a: "tick_speed s g = (s1, g1)" by (cases "tick_speed s g")
  have "0 \<le> speed_kph s1" using tick_speed_bound [OF a] by simp
  then have "0 \<le> speed_kph s1 * 1000 / 3600 * dt" using assms(4) by simp
  then have "0 \<le> position_m (tick_move dt s1)"
    using assms(2) tick_speed_frame [OF a] by (simp add: tick_move_position)
  then have "0 \<le> position_m s' \<and> position_m s' < 1000"
    by (simp add: tick_position [OF t a])
  with t show ?thesis by blast
qed

theorem position_bound_invariant_witness:
  "valid_rng (rng_pad [] (1 / 2)) \<and> 0 \<le> position_m agv_example \<and> position_m agv_example < 1000
     \<and> (0::real) \<le> 10
     \<and> (\<exists>s' g'. tick 10 agv_example (rng_pad [] (1 / 2)) = Inr (s', g')
           \<and> 0 \<le> position_m s' \<and> position_m s' < 1000)"
proof -
  have v: "valid_rng (rng_pad [] (1 / 2))" by (rule rng_pad_valid) simp_all
  have p: "0 \<le> position_m agv_example" "position_m agv_example < 1000" by (simp_all add: agv_example_def)
  from v p position_bound_invariant [OF v p, of 10] show ?thesis by simp
qed

text \<open>
  C6 (lane membership). At creation and after every sequence of ticks the lane of a vehicle
  is one of the lanes that \<open>LANES_BY_BLOCK\<close> gives for its yard block, whether or not
  a tick reassigns block and lane.
\<close>

theorem lane_membership_invariant:
  assumes "valid_rng g"
  shows "\<exists>s0 g0. AGVState_init aid g = Inr (s0, g0) \<and> lane_in_block s0
           \<and> (\<forall>dts. \<exists>s g'. run_ticks dts s0 g0 = Inr (s, g') \<and> lane_in_block s)"
proof -
  from AGVState_init_ok [OF assms] obtain s0 g0 where
    i: "AGVState_init aid g = Inr (s0, g0)" and v0: "valid_rng g0"
    and l0: "lane_in_block s0" by blast
  have "\<exists>s g'. run_ticks dts s0 g0 = Inr (s, g') \<and> lane_in_block s" for dts
  proof -
    have "\<exists>s g'. run_ticks dts s0 g0 = Inr (s, g') \<and> lane_in_block s \<and> valid_rng g'"
    proof (rule run_ticks_invariant [where Q = "\<lambda>dt. True"])
      show "lane_in_block s'" if "lane_in_block s" "tick dt s g = Inr (s', g')"
        for dt s g s' g' using that(2,1) by (rule tick_lane_in_block)
      show "valid_rng g0" by (rule v0)
      show "lane_in_block s0" by (rule l0)
      show "list_all (\<lambda>dt. True) dts" by (simp add: list_all_iff)
    qed
    then show ?thesis by blast
  qed
  with i l0 show ?thesis by auto
qed

theorem lane_membership_invariant_witness:
  "valid_rng (rng_pad [] (1 / 2))
     \<and> (\<exists>s0 g0. AGVState_init ''AGV-01'' (rng_pad [] (1 / 2)) = Inr (s0, g0)
           \<and> lane_in_block s0
           \<and> (\<forall>dts. \<exists>s g'. run_ticks dts s0 g0 = Inr (s, g') \<and> lane_in_block s))"
proof -
  have v: "valid_rng (rng_pad [] (1 / 2))" by (rule rng_pad_valid) simp_all
  from v lane_membership_invariant [OF v, of "''AGV-01''"] show ?thesis by blast
qed

text \<open>
  C7, as stated, fails in its first half: \<^verbatim>\<open>tick\<close> accepts a negative time step, and
  then line 60 adds to the charge. A vehicle created with charge 99.96 and ticked with
  \<open>dt = - 1\<close> and a drain draw of \<open>9 / 10\<close> ends the tick with charge 100.006.
\<close>

theorem charge_above_100_for_negative_dt:
  "AGVState_init ''AGV-01''
       (rng_pad [1 / 2, 1 / 2, 1 / 2, 1 / 2, 999 / 1000, 1 / 2, 1 / 2, 1 / 2, 9 / 10] (1 / 2)) =
     Inr (\<lparr>agv_id = ''AGV-01'', yard_block = ''YB11'', lane_id = ''L44'', position_m = 500,
           speed_kph = 11, soc_pct = 2499 / 25, job_id = ''JOB-550000'',
           load_status = ''LOADED''\<rparr>, rng_pad [1 / 2, 9 / 10] (1 / 2))
   \<and> tick (- 1)
       \<lparr>agv_id = ''AGV-01'', yard_block = ''YB11'', lane_id = ''L44'', position_m = 500,
           speed_kph = 11, soc_pct = 2499 / 25, job_id = ''JOB-550000'',
           load_status = ''LOADED''\<rparr> (rng_pad [1 / 2, 9 / 10] (1 / 2)) =
     Inr (\<lparr>agv_id = ''AGV-01'', yard_block = ''YB11'', lane_id = ''L44'',
           position_m = 8945 / 18, speed_kph = 11, soc_pct = 50003 / 500,
           job_id = ''JOB-550000'', load_status = ''LOADED''\<rparr>, rng_pad [] (1 / 2))
   \<and> (100 :: real) < 50003 / 500"
  by (simp add: AGVState_init_def choice_def randbelow_def YARD_BLOCKS_def LANES_BY_BLOCK_def
        getitem_def tick_def tick_motion_def tick_speed_def tick_move_def
        tick_lane_end_def tick_battery_def uniform_def random_random_pad random_random_const
        new_job_id_def randint_def str_550000 Let_def)

text \<open>
  C7 (charge bounds), amended. With time steps \<open>dt \<ge> 0\<close> the charge is at most 100 at
  creation and after every sequence of ticks. The lower bound 0 is not enforced: a vehicle
  created under the generator that always draws \<open>1 / 2\<close>, so that no recharge test
  \<open>r < 0.01\<close> ever succeeds, has a negative charge after 3000 ticks of one second. And
  only a recharge raises the charge again: a tick with \<open>dt \<ge> 0\<close> whose recharge does not
  fire never ends with a higher charge than it started with.
\<close>

theorem charge_bounded_above_only:
  "(valid_rng g \<and> list_all (\<lambda>dt. 0 \<le> dt) dts \<longrightarrow>
      (\<exists>s0 g0. AGVState_init aid g = Inr (s0, g0) \<and> soc_pct s0 \<le> 100
         \<and> (\<exists>s g'. run_ticks dts s0 g0 = Inr (s, g') \<and> soc_pct s \<le> 100)))
   \<and> (\<forall>n. \<not> rng_pad [] (1 / 2) n < 1 / 100)
   \<and> (\<exists>s0 g0 s' g'. AGVState_init aid (rng_pad [] (1 / 2)) = Inr (s0, g0)
         \<and> run_ticks (replicate 3000 1) s0 g0 = Inr (s', g') \<and> soc_pct s' < 0)
   \<and> (valid_rng g \<and> 0 \<le> dt \<and> tick_motion dt s g = Inr (s2, g2)
        \<and> \<not> recharge_fires dt s2 g2 \<longrightarrow>
      (\<exists>s' g'. tick dt s g = Inr (s', g') \<and> soc_pct s' \<le> soc_pct s))"
proof -
  have upper: "\<exists>s0 g0. AGVState_init aid g = Inr (s0, g0) \<and> soc_pct s0 \<le> 100
         \<and> (\<exists>s g'. run_ticks dts s0 g0 = Inr (s, g') \<and> soc_pct s \<le> 100)"
    if v: "valid_rng g" and d: "list_all (\<lambda>dt. 0 \<le> dt) dts"
  proof -
    from AGVState_init_ok [OF v] obtain s0 g0 where
      i: "AGVState_init aid g = Inr (s0, g0)" and v0: "valid_rng g0"
      and c0: "soc_pct s0 \<le> 100" by blast
    have "\<exists>s g'. run_ticks dts s0 g0 = Inr (s, g') \<and> soc_pct s \<le> 100 \<and> valid_rng g'"
      using v0 c0 d
    proof (induction dts arbitrary: s0 g0)
      case Nil
      then show ?case by simp
    next
      case (Cons dt dts)
      from tick_ok [OF Cons.prems(1)] obtain s1 g1 where
        t: "tick dt s0 g0 = Inr (s1, g1)" and v1: "valid_rng g1" by blast
      from Cons.prems(3) have dt: "0 \<le> dt" and rest: "list_all (\<lambda>dt. 0 \<le> dt) dts"
        by simp_all
      from tick_soc_upper [OF Cons.prems(1) dt Cons.prems(2) t] have "soc_pct s1 \<le> 100" .
      from Cons.IH [OF v1 this rest] show ?case using t by simp
    qed
    with i c0 show ?thesis by blast
  qed
  have below: "\<exists>s0 g0 s' g'. AGVState_init aid (rng_pad [] (1 / 2)) = Inr (s0, g0)
         \<and> run_ticks (replicate 3000 1) s0 g0 = Inr (s', g') \<and> soc_pct s' < 0"
  proof -
    have v: "valid_rng (rng_pad [] (1 / 2))" by (rule rng_pad_valid) simp_all
    from AGVState_init_ok [OF v] obtain s0 g0 where
      i: "AGVState_init aid (rng_pad [] (1 / 2)) = Inr (s0, g0)" by blast
    from AGVState_init_const [OF i] have g0: "g0 = rng_pad [] (1 / 2)"
      and c0: "soc_pct s0 = 80" by simp_all
    from run_ticks_const_half [of 3000 s0] obtain s' g' where
      r: "run_ticks (replicate 3000 1) s0 (rng_pad [] (1 / 2)) = Inr (s', g')"
      and e: "soc_pct s' = soc_pct s0 - real 3000 * (3 / 100)" by blast
    from e c0 have "soc_pct s' < 0" by simp
    with i r g0 show ?thesis by blast
  qed
  have calm: "\<not> rng_pad [] (1 / 2) n < 1 / 100" for n by simp
  have mono: "\<exists>s' g'. tick dt s g = Inr (s', g') \<and> soc_pct s' \<le> soc_pct s"
    if "valid_rng g" "0 \<le> dt" "tick_motion dt s g = Inr (s2, g2)"
      "\<not> recharge_fires dt s2 g2"
    using that by (rule tick_soc_without_recharge)
  from upper below calm mono show ?thesis by blast
qed

theorem charge_bounded_above_only_witness:
  "valid_rng (rng_pad [] (1 / 2)) \<and> list_all (\<lambda>dt. 0 \<le> dt) [1, 1 :: real]
     \<and> (\<exists>s0 g0. AGVState_init ''AGV-01'' (rng_pad [] (1 / 2)) = Inr (s0, g0)
           \<and> soc_pct s0 \<le> 100
           \<and> (\<exists>s g'. run_ticks [1, 1] s0 g0 = Inr (s, g') \<and> soc_pct s \<le> 100))
     \<and> (0 :: real) \<le> 1
     \<and> tick_motion 1 agv_example (rng_pad [] (1 / 2)) =
         Inr (\<lparr>agv_id = ''AGV-01'', yard_block = ''YB10'', lane_id = ''L41'', position_m = 0,
               speed_kph = 10, soc_pct = 50, job_id = ''JOB-550000'',
               load_status = ''EMPTY''\<rparr>, rng_pad [] (1 / 2))
     \<and> \<not> recharge_fires 1
          \<lparr>agv_id = ''AGV-01'', yard_block = ''YB10'', lane_id = ''L41'', position_m = 0,
               speed_kph = 10, soc_pct = 50, job_id = ''JOB-550000'',
               load_status = ''EMPTY''\<rparr> (rng_pad [] (1 / 2))
     \<and> (\<exists>s' g'. tick 1 agv_example (rng_pad [] (1 / 2)) = Inr (s', g')
           \<and> soc_pct s' \<le> soc_pct agv_example)"
proof -
  let ?a = "\<lparr>agv_id = ''AGV-01'', yard_block = ''YB10'', lane_id = ''L41'', position_m = 0,
               speed_kph = 10, soc_pct = 50, job_id = ''JOB-550000'',
               load_status = ''EMPTY''\<rparr>"
  have v: "valid_rng (rng_pad [] (1 / 2))" by (rule rng_pad_valid) simp_all
  have d: "list_all (\<lambda>dt. 0 \<le> dt) [1, 1 :: real]" by simp
  have m: "tick_motion 1 agv_example (rng_pad [] (1 / 2)) = Inr (?a, rng_pad [] (1 / 2))"
    by (simp add: agv_example_def tick_motion_def tick_speed_def tick_move_def
          tick_lane_end_def uniform_def random_random_const new_job_id_def randint_def
          randbelow_def str_550000 Let_def)
  have n: "\<not> recharge_fires 1 ?a (rng_pad [] (1 / 2))"
    by (simp add: recharge_fires_def uniform_def random_random_const)
  note t = charge_bounded_above_only [of "rng_pad [] (1 / 2)" "[1, 1]" "''AGV-01''" 1
      agv_example ?a "rng_pad [] (1 / 2)"]
  from t v d have a: "\<exists>s0 g0. AGVState_init ''AGV-01'' (rng_pad [] (1 / 2)) = Inr (s0, g0)
           \<and> soc_pct s0 \<le> 100
           \<and> (\<exists>s g'. run_ticks [1, 1] s0 g0 = Inr (s, g') \<and> soc_pct s \<le> 100)" by blast
  from t v m n have b: "\<exists>s' g'. tick 1 agv_example (rng_pad [] (1 / 2)) = Inr (s', g')
           \<and> soc_pct s' \<le> soc_pct agv_example" by simp
  from v d a m n b show ?thesis by simp
qed

text \<open>
  C8 (determinism). Two runs of the loop that start from the same fleet and the same
  generator state and use the same time step, and that hand over the same number of
  batches, hand over the same batches field by field once the timestamps are erased,
  whatever the clocks, the timestamps, the remote ends and the rest of the configuration
  are. The same holds for two runs of \<^verbatim>\<open>main\<close> from the same generator state.
\<close>

theorem snapshot_batches_deterministic:
  "(main_loop f1 cfg1 w1 agvs g t1 [] = Some r1 \<and> main_loop f2 cfg2 w2 agvs g t2 [] = Some r2
      \<and> TICK_INTERVAL_SEC cfg1 = TICK_INTERVAL_SEC cfg2
      \<and> length (r_batches r1) = length (r_batches r2)
    \<longrightarrow> map (map strip_timestamp) (r_batches r1) = map (map strip_timestamp) (r_batches r2))
   \<and> (main f1 cfg1 w1 g = Some r1' \<and> main f2 cfg2 w2 g = Some r2'
      \<and> TICK_INTERVAL_SEC cfg1 = TICK_INTERVAL_SEC cfg2
      \<and> length (r_batches r1') = length (r_batches r2')
    \<longrightarrow> map (map strip_timestamp) (r_batches r1') = map (map strip_timestamp) (r_batches r2'))"
proof -
  have loop: "map (map strip_timestamp) (r_batches q1) = map (map strip_timestamp) (r_batches q2)"
    if "main_loop f1 cfg1 w1 fleet h t1 [] = Some q1"
      and "main_loop f2 cfg2 w2 fleet h t2 [] = Some q2"
      and "TICK_INTERVAL_SEC cfg1 = TICK_INTERVAL_SEC cfg2"
      and "length (r_batches q1) = length (r_batches q2)" for fleet h q1 q2 and t1 t2 :: nat
  proof -
    from main_loop_strip_prefix [OF that(1,2,3)] have
      "prefix (map (map strip_timestamp) (r_batches q1)) (map (map strip_timestamp) (r_batches q2))
       \<or> prefix (map (map strip_timestamp) (r_batches q2)) (map (map strip_timestamp) (r_batches q1))"
      by simp
    then show ?thesis by (rule prefix_same_length) (simp add: that(4))
  qed
  have whole: "map (map strip_timestamp) (r_batches r1') = map (map strip_timestamp) (r_batches r2')"
    if m1: "main f1 cfg1 w1 g = Some r1'" and m2: "main f2 cfg2 w2 g = Some r2'"
      and dt: "TICK_INTERVAL_SEC cfg1 = TICK_INTERVAL_SEC cfg2"
      and len: "length (r_batches r1') = length (r_batches r2')"
  proof (cases "create_fleet AGV_IDS g")
    case (Inl e)
    with m1 m2 show ?thesis by (auto simp: main_def split: if_splits)
  next
    case (Inr p)
    then obtain fleet h where c: "create_fleet AGV_IDS g = Inr (fleet, h)" by (cases p) auto
    show ?thesis
    proof (cases "r_batches r1' = [] \<or> r_batches r2' = []")
      case True
      with len show ?thesis by auto
    next
      case False
      with m1 c have l1: "main_loop f1 cfg1 w1 fleet h 0 [] = Some r1'"
        by (auto simp: main_def split: if_splits)
      from False m2 c have l2: "main_loop f2 cfg2 w2 fleet h 0 [] = Some r2'"
        by (auto simp: main_def split: if_splits)
      from loop [OF l1 l2 dt len] show ?thesis .
    qed
  qed
  from loop [of agvs g t1 r1 t2 r2] whole show ?thesis by blast
qed

theorem snapshot_batches_deterministic_witness:
  "(main_loop 3 cfg_example world_ok [agv_example, agv_low] (rng_pad [] (1 / 2)) 0 []
      = Some (the (main_loop 3 cfg_example world_ok [agv_example, agv_low] (rng_pad [] (1 / 2)) 0 []))
    \<and> main_loop 3 cfg_example world_later [agv_example, agv_low] (rng_pad [] (1 / 2)) 0 []
      = Some (the (main_loop 3 cfg_example world_later [agv_example, agv_low] (rng_pad [] (1 / 2)) 0 []))
    \<and> TICK_INTERVAL_SEC cfg_example = TICK_INTERVAL_SEC cfg_example
    \<and> length (r_batches (the (main_loop 3 cfg_example world_ok [agv_example, agv_low] (rng_pad [] (1 / 2)) 0 [])))
      = length (r_batches (the (main_loop 3 cfg_example world_later [agv_example, agv_low] (rng_pad [] (1 / 2)) 0 [])))
    \<and> length (r_batches (the (main_loop 3 cfg_example world_ok [agv_example, agv_low] (rng_pad [] (1 / 2)) 0 []))) = 2
    \<and> map (map strip_timestamp)
         (r_batches (the (main_loop 3 cfg_example world_ok [agv_example, agv_low] (rng_pad [] (1 / 2)) 0 [])))
      = map (map strip_timestamp)
         (r_batches (the (main_loop 3 cfg_example world_later [agv_example, agv_low] (rng_pad [] (1 / 2)) 0 []))))
   \<and> (main 3 cfg_example world_ok (rng_pad [] (1 / 2))
      = Some (the (main 3 cfg_example world_ok (rng_pad [] (1 / 2))))
    \<and> main 3 cfg_example world_later (rng_pad [] (1 / 2))
      = Some (the (main 3 cfg_example world_later (rng_pad [] (1 / 2))))
    \<and> length (r_batches (the (main 3 cfg_example world_ok (rng_pad [] (1 / 2)))))
      = length (r_batches (the (main 3 cfg_example world_later (rng_pad [] (1 / 2)))))
    \<and> length (r_batches (the (main 3 cfg_example world_ok (rng_pad [] (1 / 2))))) = 2
    \<and> map (map strip_timestamp) (r_batches (the (main 3 cfg_example world_ok (rng_pad [] (1 / 2)))))
      = map (map strip_timestamp)
          (r_batches (the (main 3 cfg_example world_later (rng_pad [] (1 / 2))))))"
proof -
  let ?g = "rng_pad [] (1 / 2)"
  let ?l1 = "main_loop 3 cfg_example world_ok [agv_example, agv_low] ?g 0 []"
  let ?l2 = "main_loop 3 cfg_example world_later [agv_example, agv_low] ?g 0 []"
  let ?m1 = "main 3 cfg_example world_ok ?g"
  let ?m2 = "main 3 cfg_example world_later ?g"
  have v: "valid_rng ?g" by (rule rng_pad_valid) simp_all
  from main_loop_two_ticks [OF v, of world_ok "[agv_example, agv_low]"]
  have a1: "?l1 = Some (the ?l1)" and n1: "length (r_batches (the ?l1)) = 2" by auto
  from main_loop_two_ticks [OF v, of world_later "[agv_example, agv_low]"]
  have a2: "?l2 = Some (the ?l2)" and n2: "length (r_batches (the ?l2)) = 2" by auto
  from main_two_ticks [OF v, of world_ok]
  have b1: "?m1 = Some (the ?m1)" and k1: "length (r_batches (the ?m1)) = 2" by auto
  from main_two_ticks [OF v, of world_later]
  have b2: "?m2 = Some (the ?m2)" and k2: "length (r_batches (the ?m2)) = 2" by auto
  note d = snapshot_batches_deterministic [of 3 cfg_example world_ok "[agv_example, agv_low]"
      ?g 0 "the ?l1" 3 cfg_example world_later 0 "the ?l2" "the ?m1" "the ?m2"]
  from d a1 a2 n1 n2 have "map (map strip_timestamp) (r_batches (the ?l1))
      = map (map strip_timestamp) (r_batches (the ?l2))" by simp
  moreover from d b1 b2 k1 k2 have "map (map strip_timestamp) (r_batches (the ?m1))
      = map (map strip_timestamp) (r_batches (the ?m2))" by simp
  ultimately show ?thesis using a1 a2 n1 n2 b1 b2 k1 k2 by simp
qed

text \<open>
  C9 (batch size and order). Every batch that a run of the loop hands to \<^verbatim>\<open>bulk_index\<close>
  holds exactly one record per vehicle of the fleet, in the order of the fleet; for
  \<^verbatim>\<open>main\<close> these are ten records whose identifiers are \<open>AGV_IDS\<close> in creation order,
  the same on every tick.
\<close>

theorem batch_size_and_order:
  "(main_loop fuel cfg w agvs g ticks [] = Some r
    \<longrightarrow> list_all (\<lambda>docs. length docs = length agvs \<and> map d_agv_id docs = map agv_id agvs)
          (r_batches r))
   \<and> (main fuel cfg w g = Some r'
    \<longrightarrow> list_all (\<lambda>docs. length docs = 10 \<and> map d_agv_id docs = AGV_IDS) (r_batches r'))"
proof -
  have loop: "list_all (\<lambda>docs. length docs = length fleet \<and> map d_agv_id docs = map agv_id fleet)
      (r_batches q)"
    if "main_loop fuel cfg w fleet h t [] = Some q" for fleet h t q
  proof -
    from main_loop_batches_ids [OF that] have
      "list_all (\<lambda>docs. map d_agv_id docs = map agv_id fleet) (r_batches q)" by auto
    moreover have "length docs = length fleet" if "map d_agv_id docs = map agv_id fleet"
      for docs :: "doc list" using that by (rule map_eq_imp_length_eq)
    ultimately show ?thesis by (auto simp: list_all_iff)
  qed
  have whole: "list_all (\<lambda>docs. length docs = 10 \<and> map d_agv_id docs = AGV_IDS) (r_batches r')"
    if m: "main fuel cfg w g = Some r'"
  proof (cases "r_batches r' = []")
    case True
    then show ?thesis by simp
  next
    case False
    with m obtain fleet h where c: "create_fleet AGV_IDS g = Inr (fleet, h)"
      and l: "main_loop fuel cfg w fleet h 0 [] = Some r'"
      by (auto simp: main_def split: if_splits sum.splits)
    from create_fleet_ids [OF c] have ids: "map agv_id fleet = AGV_IDS" .
    have "length (map agv_id fleet) = length AGV_IDS" by (simp only: ids)
    then have "length fleet = 10" by (simp add: AGV_IDS_eval)
    with loop [OF l] ids show ?thesis by simp
  qed
  from loop [of agvs g ticks r] whole show ?thesis by blast
qed

theorem batch_size_and_order_witness:
  "(main_loop 3 cfg_example world_ok [agv_example, agv_low] (rng_pad [] (1 / 2)) 0 []
      = Some (the (main_loop 3 cfg_example world_ok [agv_example, agv_low] (rng_pad [] (1 / 2)) 0 []))
    \<and> length (r_batches (the (main_loop 3 cfg_example world_ok [agv_example, agv_low] (rng_pad [] (1 / 2)) 0 []))) = 2
    \<and> list_all (\<lambda>docs. length docs = length [agv_example, agv_low]
                  \<and> map d_agv_id docs = map agv_id [agv_example, agv_low])
        (r_batches (the (main_loop 3 cfg_example world_ok [agv_example, agv_low] (rng_pad [] (1 / 2)) 0 []))))
   \<and> (main 3 cfg_example world_ok (rng_pad [] (1 / 2))
      = Some (the (main 3 cfg_example world_ok (rng_pad [] (1 / 2))))
    \<and> length (r_batches (the (main 3 cfg_example world_ok (rng_pad [] (1 / 2))))) = 2
    \<and> list_all (\<lambda>docs. length docs = 10 \<and> map d_agv_id docs = AGV_IDS)
        (r_batches (the (main 3 cfg_example world_ok (rng_pad [] (1 / 2))))))"
proof -
  let ?g = "rng_pad [] (1 / 2)"
  let ?l1 = "main_loop 3 cfg_example world_ok [agv_example, agv_low] ?g 0 []"
  let ?m1 = "main 3 cfg_example world_ok ?g"
  have v: "valid_rng ?g" by (rule rng_pad_valid) simp_all
  from main_loop_two_ticks [OF v, of world_ok "[agv_example, agv_low]"]
  have a1: "?l1 = Some (the ?l1)" and n1: "length (r_batches (the ?l1)) = 2" by auto
  from main_two_ticks [OF v, of world_ok]
  have b1: "?m1 = Some (the ?m1)" and k1: "length (r_batches (the ?m1)) = 2" by auto
  note d = batch_size_and_order [of 3 cfg_example world_ok "[agv_example, agv_low]" ?g 0
      "the ?l1" "the ?m1"]
  from d a1 have "list_all (\<lambda>docs. length docs = length [agv_example, agv_low]
                  \<and> map d_agv_id docs = map agv_id [agv_example, agv_low]) (r_batches (the ?l1))"
    by blast
  moreover from d b1 have
    "list_all (\<lambda>docs. length docs = 10 \<and> map d_agv_id docs = AGV_IDS) (r_batches (the ?m1))"
    by blast
  ultimately show ?thesis using a1 n1 b1 k1 by blast
qed

end
